theory Spec2Isabelle
  imports
    Complex_Main
    "HOL-Library.Product_Lexorder"
    "HOL-Library.List_Lexorder"
    "HOL-Library.Char_ord"
begin

section \<open>Conventions of the embedding\<close>

text \<open>
  The embedded program is \<^verbatim>\<open>scripts/build_dataset.py\<close>. Python \<^verbatim>\<open>float\<close> values
  (IEEE-754 doubles) are modelled as exact \<^typ>\<open>real\<close> numbers: rounding, NaN and
  infinities are not represented. Python \<^verbatim>\<open>int\<close> values are \<^typ>\<open>int\<close>, list lengths
  and array indices are \<^typ>\<open>nat\<close>. Every \<^verbatim>\<open>raise\<close> of the source, and every exception
  a Python primitive raises on the modelled values (division by zero, logarithm of a
  non-positive number, indexing out of range), is a value of \<open>py_error\<close>, returned
  as \<open>Inl\<close>. \<open>Diverged\<close> is not an exception: it marks a run in which a \<^verbatim>\<open>while\<close>
  loop of a called function does not return.
\<close>

datatype py_error =
    ZeroDivisionError
  | MathDomainError
  | IndexError
  | InvalidLagWindow "string option" int int int int real real
  | UnableToEstimateF0 "string option"
  | Diverged

text \<open>Module constants of the source.\<close>

definition WINDOW_IGNORE_S :: real where "WINDOW_IGNORE_S = 20 / 100"
definition RMS_FRAME_S :: real where "RMS_FRAME_S = 5 / 100"
definition WINDOW_TARGET_S :: real where "WINDOW_TARGET_S = 1"
definition WINDOW_MIN_S :: real where "WINDOW_MIN_S = 40 / 100"
definition MIN_F0_HZ :: real where "MIN_F0_HZ = 40"
definition MAX_F0_HZ :: real where "MAX_F0_HZ = 2000"
definition MAX_FFT :: nat where "MAX_FFT = 262144"
definition PROMINENCE_DB :: real where "PROMINENCE_DB = 15"
definition MAX_PEAKS :: nat where "MAX_PEAKS = 60"
definition SUMMARY_PEAKS :: nat where "SUMMARY_PEAKS = 12"

text \<open>The literals \<^verbatim>\<open>1e-9\<close>, \<^verbatim>\<open>1e-12\<close> and \<^verbatim>\<open>1e-6\<close>.\<close>

definition e9 :: real where "e9 = 1 / 10 ^ 9"
definition e12 :: real where "e12 = 1 / 10 ^ 12"
definition e6 :: real where "e6 = 1 / 10 ^ 6"

subsection \<open>Python primitives\<close>

text \<open>\<^verbatim>\<open>a / b\<close> on floats raises \<^verbatim>\<open>ZeroDivisionError\<close> when \<^verbatim>\<open>b\<close> is zero.\<close>

definition py_div :: "real \<Rightarrow> real \<Rightarrow> py_error + real" where
  "py_div a b = (if b = 0 then Inl ZeroDivisionError else Inr (a / b))"

text \<open>\<^verbatim>\<open>math.log2(x)\<close> raises \<^verbatim>\<open>ValueError: math domain error\<close> for \<^verbatim>\<open>x <= 0\<close>.\<close>

definition py_log2 :: "real \<Rightarrow> py_error + real" where
  "py_log2 x = (if x \<le> 0 then Inl MathDomainError else Inr (log 2 x))"

text \<open>\<^verbatim>\<open>round(x)\<close> with one argument rounds half to even and returns an \<^verbatim>\<open>int\<close>.\<close>

definition py_round :: "real \<Rightarrow> int" where
  "py_round x =
     (let f = \<lfloor>x\<rfloor>; d = x - of_int f
      in if d < 1 / 2 then f
         else if 1 / 2 < d then f + 1
         else if even f then f else f + 1)"

text \<open>\<^verbatim>\<open>int(x)\<close> on a float truncates towards zero.\<close>

definition py_int :: "real \<Rightarrow> int" where
  "py_int x = (if 0 \<le> x then \<lfloor>x\<rfloor> else \<lceil>x\<rceil>)"

text \<open>
  The slice \<^verbatim>\<open>xs[:k]\<close>: the first \<open>k\<close> elements for \<open>k \<ge> 0\<close>, all but the last
  \<open>-k\<close> for \<open>k < 0\<close>.
\<close>

definition py_slice_to :: "'a list \<Rightarrow> int \<Rightarrow> 'a list" where
  "py_slice_to xs k =
     (if 0 \<le> k then take (nat k) xs else take (length xs - nat (- k)) xs)"

text \<open>
  \<^verbatim>\<open>xs.sort(key=f, reverse=True)\<close>: CPython reverses the list, sorts it stably
  in ascending key order and reverses the result, so that elements with equal keys
  keep their original order.
\<close>

definition py_sort_reverse :: "('a \<Rightarrow> 'k::linorder) \<Rightarrow> 'a list \<Rightarrow> 'a list" where
  "py_sort_reverse f xs = rev (sort_key f (rev xs))"

section \<open>Spectral peaks and the harmonic-grid fit score\<close>

text \<open>
  A peak is the dictionary built by \<^verbatim>\<open>_analyze_partials\<close>. The fit score reads it
  with \<^verbatim>\<open>peak.get("hz", 0.0)\<close>, so the key \<^verbatim>\<open>hz\<close> may be absent: \<open>hz\<close> is optional.
\<close>

record peak =
  hz :: "real option"
  rel_amp_db :: real
  peak_confidence :: real
  harmonic_index_guess :: "int option"

definition peak_get_hz :: "peak \<Rightarrow> real" where
  "peak_get_hz pk = (case hz pk of None \<Rightarrow> 0 | Some h \<Rightarrow> h)"

text \<open>The body of the \<^verbatim>\<open>for peak in summary_peaks[:k]\<close> loop, with its counter.\<close>

fun count_aligned :: "peak list \<Rightarrow> real \<Rightarrow> real \<Rightarrow> nat \<Rightarrow> py_error + nat" where
  "count_aligned [] f0_hz tol aligned = Inr aligned"
| "count_aligned (pk # rest) f0_hz tol aligned =
     (let peak_hz = peak_get_hz pk in
      case py_div peak_hz f0_hz of
        Inl e \<Rightarrow> Inl e
      | Inr r \<Rightarrow>
          (let harmonic_idx = py_round r in
           if harmonic_idx < 1 then count_aligned rest f0_hz tol aligned
           else
             (let target = of_int harmonic_idx * f0_hz in
              case py_div \<bar>peak_hz - target\<bar> (max target e9) of
                Inl e \<Rightarrow> Inl e
              | Inr rel_err \<Rightarrow>
                  count_aligned rest f0_hz tol
                    (if rel_err \<le> tol then aligned + 1 else aligned))))"

definition harmonic_grid_fit_score_gen ::
  "peak list \<Rightarrow> real \<Rightarrow> real \<Rightarrow> int \<Rightarrow> py_error + real" where
  "harmonic_grid_fit_score_gen summary_peaks f0_hz tol k_max =
     (if summary_peaks = [] \<or> f0_hz \<le> 0 then Inr 0
      else
        (let k = min k_max (int (length summary_peaks)) in
         case count_aligned (py_slice_to summary_peaks k) f0_hz tol 0 of
           Inl e \<Rightarrow> Inl e
         | Inr aligned \<Rightarrow> py_div (real aligned) (of_int (max k 1))))"

text \<open>The call with the default arguments \<^verbatim>\<open>tol=0.03\<close>, \<^verbatim>\<open>k_max=SUMMARY_PEAKS\<close>.\<close>

definition harmonic_grid_fit_score :: "peak list \<Rightarrow> real \<Rightarrow> py_error + real" where
  "harmonic_grid_fit_score summary_peaks f0_hz =
     harmonic_grid_fit_score_gen summary_peaks f0_hz (3 / 100) (int SUMMARY_PEAKS)"

section \<open>Octave corrector\<close>

record correction =
  original_f0_hz :: real
  corrected_f0_hz :: real
  harmonic_fit_before :: real
  harmonic_fit_after :: real

text \<open>One element of \<^verbatim>\<open>scored\<close>: \<open>(cand, fit, cents_shift, in_range)\<close>.\<close>

type_synonym scored = "real \<times> real \<times> real \<times> bool"

definition score_candidate :: "real \<Rightarrow> peak list \<Rightarrow> real \<Rightarrow> py_error + scored" where
  "score_candidate preliminary_f0_hz summary_peaks cand =
     (case harmonic_grid_fit_score summary_peaks cand of
        Inl e \<Rightarrow> Inl e
      | Inr fit \<Rightarrow>
          (case py_div (max cand e9) (max preliminary_f0_hz e9) of
             Inl e \<Rightarrow> Inl e
           | Inr r \<Rightarrow>
               (case py_log2 r of
                  Inl e \<Rightarrow> Inl e
                | Inr l \<Rightarrow>
                    Inr (cand, fit, \<bar>1200 * l\<bar>,
                         MIN_F0_HZ \<le> cand \<and> cand \<le> MAX_F0_HZ))))"

fun score_all :: "real \<Rightarrow> peak list \<Rightarrow> real list \<Rightarrow> py_error + scored list" where
  "score_all preliminary_f0_hz summary_peaks [] = Inr []"
| "score_all preliminary_f0_hz summary_peaks (cand # cands) =
     (case score_candidate preliminary_f0_hz summary_peaks cand of
        Inl e \<Rightarrow> Inl e
      | Inr s \<Rightarrow>
          (case score_all preliminary_f0_hz summary_peaks cands of
             Inl e \<Rightarrow> Inl e
           | Inr ss \<Rightarrow> Inr (s # ss)))"

text \<open>The sort key \<^verbatim>\<open>lambda x: (x[1], x[3], -x[2])\<close>.\<close>

definition scored_key :: "scored \<Rightarrow> real \<times> bool \<times> real" where
  "scored_key x = (case x of (cand, fit, cents_shift, in_range) \<Rightarrow> (fit, in_range, - cents_shift))"

definition octave_candidates :: "real \<Rightarrow> real list" where
  "octave_candidates preliminary_f0_hz =
     [preliminary_f0_hz, preliminary_f0_hz / 2, preliminary_f0_hz * 2]"

text \<open>\<^verbatim>\<open>scored[0]\<close> after the sort.\<close>

definition best_scored :: "real \<Rightarrow> peak list \<Rightarrow> py_error + scored" where
  "best_scored preliminary_f0_hz summary_peaks =
     (case score_all preliminary_f0_hz summary_peaks (octave_candidates preliminary_f0_hz) of
        Inl e \<Rightarrow> Inl e
      | Inr ss \<Rightarrow>
          (case py_sort_reverse scored_key ss of
             [] \<Rightarrow> Inl IndexError
           | b # _ \<Rightarrow> Inr b))"

definition correct_octave_by_harmonic_fit ::
  "real \<Rightarrow> peak list \<Rightarrow> py_error + (real \<times> real \<times> correction option \<times> bool)" where
  "correct_octave_by_harmonic_fit preliminary_f0_hz summary_peaks =
     (case best_scored preliminary_f0_hz summary_peaks of
        Inl e \<Rightarrow> Inl e
      | Inr (best_f0, best_fit, best_shift, best_in_range) \<Rightarrow>
          (case harmonic_grid_fit_score summary_peaks preliminary_f0_hz of
             Inl e \<Rightarrow> Inl e
           | Inr before_fit \<Rightarrow>
               (case py_div (max best_f0 e9) (max preliminary_f0_hz e9) of
                  Inl e \<Rightarrow> Inl e
                | Inr ratio \<Rightarrow>
                    (case py_log2 ratio of
                       Inl e \<Rightarrow> Inl e
                     | Inr l \<Rightarrow>
                         (let is_octave = (9 / 10 < \<bar>l\<bar> \<and> \<bar>l\<bar> < 11 / 10);
                              improved = best_fit - before_fit;
                              accepted = (is_octave \<and> 15 / 100 \<le> improved
                                          \<and> MIN_F0_HZ \<le> best_f0 \<and> best_f0 \<le> MAX_F0_HZ);
                              correction =
                                (if accepted then
                                   Some \<lparr>original_f0_hz = preliminary_f0_hz,
                                         corrected_f0_hz = best_f0,
                                         harmonic_fit_before = before_fit,
                                         harmonic_fit_after = best_fit\<rparr>
                                 else None)
                          in Inr (if accepted then best_f0 else preliminary_f0_hz,
                                  if accepted then best_fit else before_fit,
                                  correction, accepted))))))"

section \<open>Window selector\<close>

text \<open>
  The slice \<^verbatim>\<open>xs[a:b]\<close> for arbitrary integers: a negative bound counts from the end,
  and both bounds are clamped to the list.
\<close>

definition py_clamp_index :: "nat \<Rightarrow> int \<Rightarrow> nat" where
  "py_clamp_index n i = (if i < 0 then nat (max (i + int n) 0) else min (nat i) n)"

definition py_slice :: "'a list \<Rightarrow> int \<Rightarrow> int \<Rightarrow> 'a list" where
  "py_slice xs a b =
     (let lo = py_clamp_index (length xs) a; hi = py_clamp_index (length xs) b
      in take (hi - lo) (drop lo xs))"

text \<open>\<^verbatim>\<open>range(start, stop, step)\<close> for a positive step (every step of the source is).\<close>

definition py_range :: "int \<Rightarrow> int \<Rightarrow> int \<Rightarrow> int list" where
  "py_range start stop step =
     map (\<lambda>i. start + int i * step) [0 ..< nat ((stop - start + step - 1) div step)]"

text \<open>
  \<^verbatim>\<open>a.reshape(-1, frame)\<close> on an array whose size is a multiple of \<open>frame\<close>: the rows
  of \<open>frame\<close> consecutive elements.
\<close>

function reshape_rows :: "'a list \<Rightarrow> nat \<Rightarrow> 'a list list" where
  "reshape_rows xs frame =
     (if xs = [] \<or> frame = 0 then [] else take frame xs # reshape_rows (drop frame xs) frame)"
  by pat_completeness auto
termination
  by (relation "measure (\<lambda>(xs, frame). length xs)") auto

text \<open>
  \<^verbatim>\<open>np.mean\<close> and \<^verbatim>\<open>np.var\<close> (population variance). On an empty array numpy
  returns NaN with a warning; the source never calls them on one.
\<close>

definition np_mean :: "real list \<Rightarrow> real" where
  "np_mean xs = sum_list xs / real (length xs)"

definition np_var :: "real list \<Rightarrow> real" where
  "np_var xs = (let m = np_mean xs in np_mean (map (\<lambda>v. (v - m) * (v - m)) xs))"

text \<open>
  The variance of the short-time RMS energy of the candidate window starting at \<open>s\<close>;
  \<open>None\<close> when \<^verbatim>\<open>chunks.size == 0\<close> (the loop body executes \<^verbatim>\<open>continue\<close>).
\<close>

definition window_variance :: "real list \<Rightarrow> int \<Rightarrow> int \<Rightarrow> int \<Rightarrow> real option" where
  "window_variance x win frame s =
     (let segment = py_slice x s (s + win);
          chunks = reshape_rows
                     (py_slice_to segment ((int (length segment) div frame) * frame)) (nat frame)
      in if chunks = [] then None
         else
           (let rms = map (\<lambda>c. sqrt (np_mean (map (\<lambda>v. v * v) c) + e12)) chunks
            in Some (np_var rms)))"

text \<open>
  The condition under which one scanned candidate \<open>s\<close> of variance \<open>variance\<close>
  replaces the current \<open>(best_start, best_var)\<close>.
\<close>

definition better_window :: "int \<times> real option \<Rightarrow> int \<Rightarrow> real \<Rightarrow> bool" where
  "better_window st s variance =
     (case st of (best_start, best_var) \<Rightarrow>
        (case best_var of
           None \<Rightarrow> True
         | Some bv \<Rightarrow>
             variance < bv - e12 \<or> (\<bar>variance - bv\<bar> < e12 \<and> best_start < s)))"

definition select_step :: "int \<times> real option \<Rightarrow> int \<times> real option \<Rightarrow> int \<times> real option" where
  "select_step st cand =
     (case cand of (s, v) \<Rightarrow>
        (case v of
           None \<Rightarrow> st
         | Some variance \<Rightarrow> if better_window st s variance then (s, Some variance) else st))"

text \<open>The \<^verbatim>\<open>for s in range(...)\<close> loop over the scanned starts, paired with their variances.\<close>

fun select_window :: "(int \<times> real option) list \<Rightarrow> int \<times> real option \<Rightarrow> int \<times> real option" where
  "select_window [] st = st"
| "select_window (cand # cands) st = select_window cands (select_step st cand)"

text \<open>\<open>(start_idx, available, win, frame)\<close> as computed before the loop.\<close>

definition window_params :: "nat \<Rightarrow> int \<Rightarrow> int \<times> int \<times> int \<times> int" where
  "window_params n sr =
     (let start_idx = min (py_int (WINDOW_IGNORE_S * of_int sr)) (int n);
          max_win = py_int (WINDOW_TARGET_S * of_int sr);
          min_win = py_int (WINDOW_MIN_S * of_int sr);
          available = int n - start_idx;
          win0 = min max_win available;
          win1 = (if win0 < min_win then max min_win available else win0);
          win = (if available < win1 then available else win1);
          frame = max 1 (py_int (RMS_FRAME_S * of_int sr))
      in (start_idx, available, win, frame))"

definition scanned_candidates :: "real list \<Rightarrow> int \<Rightarrow> (int \<times> real option) list" where
  "scanned_candidates x sr =
     (case window_params (length x) sr of (start_idx, available, win, frame) \<Rightarrow>
        map (\<lambda>s. (s, window_variance x win frame s))
          (py_range start_idx (int (length x) - win + 1) frame))"

definition pick_stable_window :: "real list \<Rightarrow> int \<Rightarrow> py_error + (int \<times> int \<times> string)" where
  "pick_stable_window x sr =
     (let n = length x in
      case window_params n sr of (start_idx, available, win, frame) \<Rightarrow>
        if available \<le> 0 then
          Inr (0, int n, ''audio shorter than ignore lead-in; using full signal'')
        else
          (case select_window (scanned_candidates x sr) (start_idx, None) of
             (best_start, best_var) \<Rightarrow>
               (case py_div (real n) (of_int sr) of
                  Inl e \<Rightarrow> Inl e
                | Inr dur \<Rightarrow>
                    Inr (best_start, best_start + win,
                         if dur < 12 / 10 then ''short audio; analysis window reduced''
                         else []))))"

section \<open>Pitch tracker\<close>

text \<open>\<^verbatim>\<open>np.hanning(M)\<close>: \<open>0.5 - 0.5 cos(2 pi n / (M - 1))\<close>, and \<open>[1.0]\<close> for \<open>M = 1\<close>.\<close>

definition np_hanning :: "nat \<Rightarrow> real list" where
  "np_hanning M =
     (if M = 1 then [1]
      else map (\<lambda>n. 1 / 2 - 1 / 2 * cos (2 * pi * real n / real (M - 1))) [0 ..< M])"

text \<open>
  \<^verbatim>\<open>np.correlate(frame, frame, mode="full")[frame_size - 1:]\<close>: the autocorrelation at
  the lags \<open>0, ..., frame_size - 1\<close>.
\<close>

definition autocorr_at :: "real list \<Rightarrow> nat \<Rightarrow> real" where
  "autocorr_at fr l = (\<Sum>j \<leftarrow> [0 ..< length fr - l]. fr ! (j + l) * fr ! j)"

definition autocorr :: "real list \<Rightarrow> real list" where
  "autocorr fr = map (autocorr_at fr) [0 ..< length fr]"

text \<open>\<^verbatim>\<open>np.argmax\<close>: the first index of the maximum (of a non-empty array).\<close>

fun argmax_from :: "real list \<Rightarrow> nat \<Rightarrow> nat \<Rightarrow> real \<Rightarrow> nat" where
  "argmax_from [] i best_i best_v = best_i"
| "argmax_from (v # vs) i best_i best_v =
     (if best_v < v then argmax_from vs (i + 1) i v else argmax_from vs (i + 1) best_i best_v)"

definition np_argmax :: "real list \<Rightarrow> nat" where
  "np_argmax vs = (case vs of [] \<Rightarrow> 0 | v # rest \<Rightarrow> argmax_from rest 1 0 v)"

definition np_clip :: "real \<Rightarrow> real \<Rightarrow> real \<Rightarrow> real" where
  "np_clip v lo hi = min (max v lo) hi"

text \<open>\<^verbatim>\<open>np.median\<close> of a non-empty array.\<close>

definition np_median :: "real list \<Rightarrow> real" where
  "np_median vs =
     (let s = sort vs; n = length s
      in if odd n then s ! (n div 2) else (s ! (n div 2 - 1) + s ! (n div 2)) / 2)"

text \<open>\<^verbatim>\<open>np.pad(x, (0, k))\<close> appends \<open>k\<close> zeros.\<close>

definition np_pad_right :: "real list \<Rightarrow> nat \<Rightarrow> real list" where
  "np_pad_right x k = x @ replicate k 0"

record f0_meta =
  meta_lmin :: int
  meta_lmax :: int
  meta_frame_size :: int
  meta_hop :: int
  meta_median_lag :: int
  meta_notes :: "string list"

text \<open>\<open>(frame_size, hop, lmin, lmax)\<close>; the two divisions may raise.\<close>

definition lag_bounds :: "int \<Rightarrow> real \<Rightarrow> real \<Rightarrow> py_error + (int \<times> int \<times> int \<times> int)" where
  "lag_bounds sr min_hz max_hz =
     (let frame_size = max 1024 (py_int (46 / 1000 * of_int sr));
          hop = max 256 (frame_size div 4)
      in case py_div (of_int sr) max_hz of
           Inl e \<Rightarrow> Inl e
         | Inr a \<Rightarrow>
             (case py_div (of_int sr) min_hz of
                Inl e \<Rightarrow> Inl e
              | Inr b \<Rightarrow>
                  Inr (frame_size, hop, max 1 \<lfloor>a\<rfloor>, min (frame_size - 1) \<lceil>b\<rceil>)))"

text \<open>
  One iteration of the frame loop at offset \<open>s\<close>: \<open>None\<close> when the body executes
  \<^verbatim>\<open>continue\<close>, otherwise \<open>(lag, f0, conf)\<close>.
\<close>

definition analyze_frame ::
  "real list \<Rightarrow> int \<Rightarrow> int \<Rightarrow> int \<Rightarrow> int \<Rightarrow> int \<Rightarrow> py_error + (int \<times> real \<times> real) option" where
  "analyze_frame x sr frame_size lmin lmax s =
     (let windowed = map2 (*) (py_slice x s (s + frame_size)) (np_hanning (nat frame_size));
          m = np_mean windowed;
          frame = map (\<lambda>v. v - m) windowed;
          ac = autocorr frame
      in case ac of
           [] \<Rightarrow> Inl IndexError
         | ac0 # _ \<Rightarrow>
             if ac0 \<le> 0 then Inr None
             else
               (let acn = map (\<lambda>v. v / (ac0 + e12)) ac;
                    search = py_slice acn lmin lmax
                in if search = [] then Inr None
                   else
                     (let lag = int (np_argmax search) + lmin
                      in if lag < 0 \<or> int (length acn) \<le> lag then Inl IndexError
                         else
                           (case py_div (of_int sr) (of_int lag) of
                              Inl e \<Rightarrow> Inl e
                            | Inr f0 \<Rightarrow>
                                Inr (Some (lag, f0, np_clip (acn ! nat lag) 0 1))))))"

text \<open>The frame loop, appending to \<open>(lags, f0s, confs)\<close>.\<close>

fun frame_loop ::
  "real list \<Rightarrow> int \<Rightarrow> int \<Rightarrow> int \<Rightarrow> int \<Rightarrow> int list \<Rightarrow>
   int list \<times> real list \<times> real list \<Rightarrow> py_error + (int list \<times> real list \<times> real list)" where
  "frame_loop x sr frame_size lmin lmax [] acc = Inr acc"
| "frame_loop x sr frame_size lmin lmax (s # ss) acc =
     (case analyze_frame x sr frame_size lmin lmax s of
        Inl e \<Rightarrow> Inl e
      | Inr None \<Rightarrow> frame_loop x sr frame_size lmin lmax ss acc
      | Inr (Some (lag, f0, conf)) \<Rightarrow>
          (case acc of (lags, f0s, confs) \<Rightarrow>
             frame_loop x sr frame_size lmin lmax ss (lags @ [lag], f0s @ [f0], confs @ [conf])))"

text \<open>The array the frames are cut from, and the note of the padding branch.\<close>

definition padded_input :: "real list \<Rightarrow> int \<Rightarrow> real list \<times> string list" where
  "padded_input x frame_size =
     (if int (length x) < frame_size then
        (np_pad_right x (nat (frame_size - int (length x))),
         [''short audio; frame was zero-padded for f0 tracking''])
      else (x, []))"

definition frame_starts :: "real list \<Rightarrow> int \<Rightarrow> int \<Rightarrow> int list" where
  "frame_starts xp frame_size hop = py_range 0 (int (length xp) - frame_size + 1) hop"

definition estimate_f0_acf_with_meta ::
  "real list \<Rightarrow> int \<Rightarrow> real \<Rightarrow> real \<Rightarrow> string option \<Rightarrow>
   py_error + (real list \<times> real list \<times> f0_meta)" where
  "estimate_f0_acf_with_meta x sr min_hz max_hz context =
     (case lag_bounds sr min_hz max_hz of
        Inl e \<Rightarrow> Inl e
      | Inr (frame_size, hop, lmin, lmax) \<Rightarrow>
          if lmax \<le> lmin then
            Inl (InvalidLagWindow context lmin lmax frame_size sr min_hz max_hz)
          else
            (case padded_input x frame_size of (xp, notes) \<Rightarrow>
               (case frame_loop xp sr frame_size lmin lmax (frame_starts xp frame_size hop)
                       ([], [], []) of
                  Inl e \<Rightarrow> Inl e
                | Inr (lags, f0s, confs) \<Rightarrow>
                    if f0s = [] then Inl (UnableToEstimateF0 context)
                    else
                      Inr (f0s, confs,
                           \<lparr>meta_lmin = lmin, meta_lmax = lmax, meta_frame_size = frame_size,
                            meta_hop = hop,
                            meta_median_lag = py_int (np_median (map of_int lags)),
                            meta_notes = notes\<rparr>))))"

text \<open>The call of \<^verbatim>\<open>build_dataset\<close>: default frequency bounds.\<close>

definition estimate_f0_default ::
  "real list \<Rightarrow> int \<Rightarrow> string option \<Rightarrow> py_error + (real list \<times> real list \<times> f0_meta)" where
  "estimate_f0_default x sr context = estimate_f0_acf_with_meta x sr MIN_F0_HZ MAX_F0_HZ context"

section \<open>Partial analyzer\<close>

text \<open>
  Two library calls of \<^verbatim>\<open>_analyze_partials\<close> are parameters of the model:
  \<^item> \<open>rfft_abs\<close> stands for \<^verbatim>\<open>np.abs(np.fft.rfft(.))\<close>, the magnitude spectrum of the
    windowed signal (numpy returns \<open>n div 2 + 1\<close> bins for \<open>n\<close> samples);
  \<^item> \<open>find_peaks\<close> stands for \<^verbatim>\<open>scipy.signal.find_peaks(mag_db, prominence=.)\<close> and
    returns the pair \<open>(peaks_idx, props["prominences"])\<close>.
  \<^verbatim>\<open>np.argsort\<close> is modelled as a stable ascending sort of the indices; numpy's
  default sort may order equal keys differently.
\<close>

definition fft_length :: "nat \<Rightarrow> nat" where
  "fft_length n = min (2 ^ nat \<lceil>log 2 (real (max 2 n))\<rceil>) MAX_FFT"

text \<open>\<^verbatim>\<open>np.fft.rfftfreq(n, d=1.0 / sr)\<close>: the bin \<open>k\<close> is \<open>k * (1 / (n * d))\<close>.\<close>

definition rfftfreq :: "nat \<Rightarrow> int \<Rightarrow> py_error + real list" where
  "rfftfreq n sr =
     (case py_div 1 (of_int sr) of
        Inl e \<Rightarrow> Inl e
      | Inr d \<Rightarrow>
          (case py_div 1 (real n * d) of
             Inl e \<Rightarrow> Inl e
           | Inr val \<Rightarrow> Inr (map (\<lambda>k. real k * val) [0 ..< n div 2 + 1])))"

text \<open>Boolean-mask indexing \<^verbatim>\<open>a[valid]\<close>.\<close>

definition np_mask :: "'a list \<Rightarrow> bool list \<Rightarrow> 'a list" where
  "np_mask a valid = map fst (filter snd (zip a valid))"

definition np_argsort :: "real list \<Rightarrow> nat list" where
  "np_argsort vs = sort_key (\<lambda>i. vs ! i) [0 ..< length vs]"

text \<open>\<^verbatim>\<open>np.max\<close> of a non-empty array.\<close>

definition np_max :: "real list \<Rightarrow> real" where
  "np_max vs = (case vs of [] \<Rightarrow> 0 | v # rest \<Rightarrow> fold max rest v)"

text \<open>The slice \<^verbatim>\<open>a[-m:]\<close> for \<open>m \<ge> 1\<close>: the last \<open>m\<close> elements.\<close>

definition py_last_n :: "nat \<Rightarrow> 'a list \<Rightarrow> 'a list" where
  "py_last_n m xs = drop (length xs - m) xs"

text \<open>The body of the \<^verbatim>\<open>for k in order\<close> loop: the dictionary appended to \<open>entries\<close>.\<close>

definition make_entry ::
  "real list \<Rightarrow> real list \<Rightarrow> nat list \<Rightarrow> real list \<Rightarrow> real \<Rightarrow> real \<Rightarrow> nat \<Rightarrow> peak" where
  "make_entry freqs_valid mag_db peaks_idx prominences amp_max f0_hz k =
     (let idx = peaks_idx ! k;
          hz_v = freqs_valid ! idx;
          rel_db = mag_db ! idx - amp_max;
          harmonic_ratio = hz_v / max f0_hz e6;
          harmonic_index = py_round harmonic_ratio;
          harmonic_guess =
            (if harmonic_index < 1
                \<or> 3 / 100 < \<bar>harmonic_ratio - of_int harmonic_index\<bar> / of_int harmonic_index
             then None else Some harmonic_index);
          prom = (if k < length prominences then prominences ! k else 1);
          peak_conf = np_clip (prom / (PROMINENCE_DB * 2)) 0 1
      in \<lparr>hz = Some hz_v, rel_amp_db = rel_db, peak_confidence = peak_conf,
          harmonic_index_guess = harmonic_guess\<rparr>)"

text \<open>
  \<open>(peaks_idx, prominences)\<close> after the \<^verbatim>\<open>if peaks_idx.size == 0\<close> statement: the
  fallback branch replaces the empty result of \<open>find_peaks\<close>.
\<close>

definition choose_peaks :: "real list \<Rightarrow> nat list \<times> real list \<Rightarrow> nat list \<times> real list" where
  "choose_peaks mag_valid found =
     (case found of (found_idx, found_prom) \<Rightarrow>
        if found_idx = [] then
          (let peaks_idx = py_last_n (min MAX_PEAKS (length mag_valid)) (np_argsort mag_valid)
           in (peaks_idx, replicate (length peaks_idx) 1))
        else (found_idx, found_prom))"

text \<open>The part of the function after the spectrum is restricted to the valid bins.\<close>

definition peaks_from_spectrum ::
  "(real list \<Rightarrow> real \<Rightarrow> nat list \<times> real list) \<Rightarrow> real list \<Rightarrow> real list \<Rightarrow> real \<Rightarrow>
   py_error + (peak list \<times> peak list)" where
  "peaks_from_spectrum find_peaks mag_valid freqs_valid f0_hz =
     (if mag_valid = [] then Inr ([], [])
      else
        (let mag_db = map (\<lambda>m. 20 * log 10 (max m e12)) mag_valid
         in case choose_peaks mag_valid (find_peaks mag_db PROMINENCE_DB) of
              (peaks_idx, prominences) \<Rightarrow>
                if \<not> list_all (\<lambda>i. i < length mag_db) peaks_idx then Inl IndexError
                else
                  (let amp_max = np_max mag_db;
                       order = take MAX_PEAKS (rev (np_argsort (map (\<lambda>i. mag_db ! i) peaks_idx)));
                       entries = map (make_entry freqs_valid mag_db peaks_idx prominences
                                        amp_max f0_hz) order
                   in Inr (entries, take SUMMARY_PEAKS entries))))"

text \<open>
  The first part of the function: the signal padded or truncated to the FFT length and
  multiplied by the Hann window, then the magnitudes and frequencies of the bins at or
  above 20 Hz, \<open>(mag_valid, freqs_valid)\<close>.
\<close>

definition windowed_input :: "real list \<Rightarrow> real list" where
  "windowed_input x =
     (let n = length x;
          fft_n = fft_length n;
          xp = (if n < fft_n then np_pad_right x (fft_n - n) else take fft_n x)
      in map2 (*) xp (np_hanning (length xp)))"

definition valid_bins ::
  "(real list \<Rightarrow> real list) \<Rightarrow> real list \<Rightarrow> int \<Rightarrow> py_error + (real list \<times> real list)" where
  "valid_bins rfft_abs x sr =
     (let mag = rfft_abs (windowed_input x)
      in case rfftfreq (length (windowed_input x)) sr of
           Inl e \<Rightarrow> Inl e
         | Inr freqs \<Rightarrow>
             if length mag \<noteq> length freqs then Inl IndexError
             else
               (let valid = map (\<lambda>f. 20 \<le> f) freqs
                in Inr (np_mask mag valid, np_mask freqs valid)))"

definition analyze_partials ::
  "(real list \<Rightarrow> real list) \<Rightarrow> (real list \<Rightarrow> real \<Rightarrow> nat list \<times> real list) \<Rightarrow>
   real list \<Rightarrow> int \<Rightarrow> real \<Rightarrow> py_error + (peak list \<times> peak list)" where
  "analyze_partials rfft_abs find_peaks x sr f0_hz =
     (case valid_bins rfft_abs x sr of
        Inl e \<Rightarrow> Inl e
      | Inr (mag_valid, freqs_valid) \<Rightarrow>
          peaks_from_spectrum find_peaks mag_valid freqs_valid f0_hz)"

section \<open>Just-intonation candidates\<close>

text \<open>
  \<^verbatim>\<open>_prime_factors\<close>: two nested \<^verbatim>\<open>while\<close> loops. The inner loop does not return
  for \<open>x = 0\<close> or \<open>d = 1\<close>, so both loops are partial functions and \<open>None\<close> stands
  for a run that does not return. The source only reaches the inner loop with
  \<open>d \<ge> 2\<close>, where Python's \<^verbatim>\<open>%\<close> and \<^verbatim>\<open>//\<close> are \<open>mod\<close> and \<open>div\<close> on \<^typ>\<open>int\<close>.
\<close>

partial_function (option) strip_factor :: "int \<Rightarrow> int \<Rightarrow> int list \<Rightarrow> (int \<times> int list) option" where
  "strip_factor x d factors =
     (if x mod d = 0 then strip_factor (x div d) d (factors @ [d]) else Some (x, factors))"

partial_function (option) factor_loop :: "int \<Rightarrow> int \<Rightarrow> int list \<Rightarrow> int list option" where
  "factor_loop x d factors =
     (if d * d \<le> x then
        (case strip_factor x d factors of
           None \<Rightarrow> None
         | Some (x', factors') \<Rightarrow> factor_loop x' (d + 1) factors')
      else Some (if 1 < x then factors @ [x] else factors))"

definition prime_factors :: "int \<Rightarrow> int list option" where
  "prime_factors n = factor_loop n 2 []"

text \<open>\<^verbatim>\<open>str(n)\<close> for an integer, used by the label \<^verbatim>\<open>f"{pp}/{qq}"\<close>.\<close>

fun str_nat :: "nat \<Rightarrow> string" where
  "str_nat n =
     (if n < 10 then [char_of (48 + n)] else str_nat (n div 10) @ [char_of (48 + n mod 10)])"

definition str_int :: "int \<Rightarrow> string" where
  "str_int i = (if i < 0 then CHR ''-'' # str_nat (nat (- i)) else str_nat (nat i))"

record ji_candidate =
  ji_p :: int
  ji_q :: int
  cents_error :: real
  prime_limit :: int
  complexity_score :: real
  label :: string

text \<open>
  The loop state: the list \<open>candidates\<close>, each dictionary paired with its \<^verbatim>\<open>_total\<close>
  entry (removed before the function returns), and the set \<open>seen\<close>.
\<close>

type_synonym ji_state = "(ji_candidate \<times> real) list \<times> (int \<times> int \<times> int) set"

text \<open>\<^verbatim>\<open>pf and max(pf) > prime_limit\<close>.\<close>

definition exceeds_limit :: "int list \<Rightarrow> int \<Rightarrow> bool" where
  "exceeds_limit pf limit = (pf \<noteq> [] \<and> limit < Max (set pf))"

text \<open>A \<^verbatim>\<open>for\<close> loop whose body may raise.\<close>

fun fold_err :: "('a \<Rightarrow> 's \<Rightarrow> py_error + 's) \<Rightarrow> 'a list \<Rightarrow> 's \<Rightarrow> py_error + 's" where
  "fold_err f [] st = Inr st"
| "fold_err f (a # as) st = (case f a st of Inl e \<Rightarrow> Inl e | Inr st' \<Rightarrow> fold_err f as st')"

text \<open>The body of the innermost loop, for one \<open>q\<close>.\<close>

definition ji_visit :: "real \<Rightarrow> int \<Rightarrow> int \<Rightarrow> int \<Rightarrow> ji_state \<Rightarrow> py_error + ji_state" where
  "ji_visit ratio limit p q st =
     (case st of (candidates, seen) \<Rightarrow>
        (case prime_factors q of
           None \<Rightarrow> Inl Diverged
         | Some qf \<Rightarrow>
             if exceeds_limit qf limit then Inr st
             else
               (let g = gcd p q in
                if g = 0 then Inl ZeroDivisionError
                else
                  (let pp = p div g; qq = q div g; key = (pp, qq, limit) in
                   if key \<in> seen then Inr st
                   else
                     (case py_div (of_int pp) (of_int qq) of
                        Inl e \<Rightarrow> Inl e
                      | Inr rr \<Rightarrow>
                          (case py_div rr ratio of
                             Inl e \<Rightarrow> Inl e
                           | Inr r \<Rightarrow>
                               (case py_log2 r of
                                  Inl e \<Rightarrow> Inl e
                                | Inr l \<Rightarrow>
                                    (case py_log2 (of_int (pp * qq)) of
                                       Inl e \<Rightarrow> Inl e
                                     | Inr complexity \<Rightarrow>
                                         (let cents = 1200 * l;
                                              total_v = \<bar>cents\<bar> + 6 * complexity
                                                      + 2 * of_int (limit - 5)
                                          in Inr (candidates @
                                                    [(\<lparr>ji_p = pp, ji_q = qq, cents_error = cents,
                                                       prime_limit = limit,
                                                       complexity_score = complexity,
                                                       label = str_int pp @ ''/'' @ str_int qq\<rparr>,
                                                      total_v)],
                                                  insert key seen))))))))))"

text \<open>The body of the loop over \<open>p\<close>, and of the loop over the prime limits.\<close>

definition ji_row :: "real \<Rightarrow> int \<Rightarrow> int \<Rightarrow> ji_state \<Rightarrow> py_error + ji_state" where
  "ji_row ratio limit p st =
     (case prime_factors p of
        None \<Rightarrow> Inl Diverged
      | Some pf \<Rightarrow>
          if exceeds_limit pf limit then Inr st
          else fold_err (ji_visit ratio limit p) [1 .. 256] st)"

definition ji_limit :: "real \<Rightarrow> int \<Rightarrow> ji_state \<Rightarrow> py_error + ji_state" where
  "ji_limit ratio limit st = fold_err (ji_row ratio limit) [1 .. 256] st"

text \<open>
  The sort key
  \<^verbatim>\<open>(c["_total"], abs(c["cents_error"]), c["complexity_score"], c["p"], c["q"])\<close>.
\<close>

definition ji_sort_key :: "ji_candidate \<times> real \<Rightarrow> real \<times> real \<times> real \<times> int \<times> int" where
  "ji_sort_key ct =
     (case ct of (c, total_v) \<Rightarrow> (total_v, \<bar>cents_error c\<bar>, complexity_score c, ji_p c, ji_q c))"

definition ji_all_candidates :: "real \<Rightarrow> py_error + ji_state" where
  "ji_all_candidates ratio = fold_err (ji_limit ratio) [5, 7, 11, 13] ([], {})"

definition generate_ji_candidates :: "real \<Rightarrow> py_error + ji_candidate list" where
  "generate_ji_candidates ratio =
     (case ji_all_candidates ratio of
        Inl e \<Rightarrow> Inl e
      | Inr (candidates, seen) \<Rightarrow> Inr (map fst (take 10 (sort_key ji_sort_key candidates))))"

section \<open>Tuning inference: the register of a bar\<close>

record register =
  octave_abs :: int
  within_octave_ratio :: real

text \<open>
  The fields of a bar record that the sort and the register assignment read or write;
  in the source the fundamental is \<^verbatim>\<open>bar["measurements"]["f0"]["f0_hz"]\<close>.
\<close>

record bar =
  bar_id :: string
  instrument_id :: string
  position_index :: int
  bar_f0_hz :: real
  bar_register :: register
  global_order_index :: int

text \<open>
  \<^verbatim>\<open>octave_abs = math.floor(math.log2(f0 / f_ref))\<close> and
  \<^verbatim>\<open>within = f0 / (f_ref * (2 ** octave_abs))\<close>.
\<close>

definition register_of :: "real \<Rightarrow> real \<Rightarrow> py_error + register" where
  "register_of f0 f_ref =
     (case py_div f0 f_ref of
        Inl e \<Rightarrow> Inl e
      | Inr r \<Rightarrow>
          (case py_log2 r of
             Inl e \<Rightarrow> Inl e
           | Inr l \<Rightarrow>
               (let oct = \<lfloor>l\<rfloor> in
                case py_div f0 (f_ref * power_int 2 oct) of
                  Inl e \<Rightarrow> Inl e
                | Inr within_v \<Rightarrow> Inr \<lparr>octave_abs = oct, within_octave_ratio = within_v\<rparr>)))"

text \<open>
  The loop \<^verbatim>\<open>for idx, bar in enumerate(bars_sorted, start=1)\<close>, restricted to the
  statements that write \<^verbatim>\<open>bar["register"]\<close> and \<^verbatim>\<open>bar["global_order_index"]\<close>.
\<close>

fun assign_registers :: "real \<Rightarrow> int \<Rightarrow> bar list \<Rightarrow> py_error + bar list" where
  "assign_registers f_ref idx [] = Inr []"
| "assign_registers f_ref idx (b # bs) =
     (case register_of (bar_f0_hz b) f_ref of
        Inl e \<Rightarrow> Inl e
      | Inr r \<Rightarrow>
          (case assign_registers f_ref (idx + 1) bs of
             Inl e \<Rightarrow> Inl e
           | Inr bs' \<Rightarrow> Inr (b\<lparr>bar_register := r, global_order_index := idx\<rparr> # bs')))"

definition bar_sort_key :: "bar \<Rightarrow> real \<times> string \<times> int" where
  "bar_sort_key b = (bar_f0_hz b, instrument_id b, position_index b)"

definition tuning_registers :: "bar list \<Rightarrow> py_error + (real \<times> bar list)" where
  "tuning_registers bars =
     (case sort_key bar_sort_key bars of
        [] \<Rightarrow> Inl IndexError
      | f_ref_bar # rest \<Rightarrow>
          (let f_ref = bar_f0_hz f_ref_bar in
           case assign_registers f_ref 1 (f_ref_bar # rest) of
             Inl e \<Rightarrow> Inl e
           | Inr bars_sorted \<Rightarrow> Inr (f_ref, bars_sorted)))"

section \<open>Verification: harmonic-grid fit score\<close>

lemma e9_pos: "0 < e9"
  by (simp add: e9_def)

lemma max_e9_pos: "0 < max t e9"
  using e9_pos by (simp add: max_def)

lemma count_aligned_ok:
  "0 < f \<Longrightarrow>
   \<exists>a. count_aligned ps f tol aligned = Inr a \<and> aligned \<le> a \<and> a \<le> aligned + length ps"
proof (induction ps arbitrary: aligned)
  case Nil
  then show ?case by simp
next
  case (Cons pk rest)
  have nz: "\<And>t. max t e9 \<noteq> 0"
    using max_e9_pos by (metis less_irrefl)
  from Cons.IH[OF Cons.prems, of aligned] obtain a1 where
    a1: "count_aligned rest f tol aligned = Inr a1" "aligned \<le> a1" "a1 \<le> aligned + length rest"
    by blast
  from Cons.IH[OF Cons.prems, of "aligned + 1"] obtain a2 where
    a2: "count_aligned rest f tol (aligned + 1) = Inr a2" "aligned + 1 \<le> a2"
        "a2 \<le> aligned + 1 + length rest"
    by blast
  show ?case
    using Cons.prems a1 a2 nz
    by (auto simp: py_div_def Let_def)
qed

lemma py_slice_to_length: "0 \<le> k \<Longrightarrow> int (length (py_slice_to xs k)) \<le> k"
  by (simp add: py_slice_to_def)

lemma fit_gen_bounded:
  assumes "0 \<le> k_max"
  shows "\<exists>v. harmonic_grid_fit_score_gen ps f tol k_max = Inr v \<and> 0 \<le> v \<and> v \<le> 1
             \<and> (if ps = [] \<or> f \<le> 0 then v = 0 else True)"
proof (cases "ps = [] \<or> f \<le> 0")
  case True
  then show ?thesis by (auto simp: harmonic_grid_fit_score_gen_def)
next
  case False
  then have pos: "0 < f" and ne: "ps \<noteq> []" by auto
  define k where "k = min k_max (int (length ps))"
  have k0: "0 \<le> k" using assms by (simp add: k_def)
  from count_aligned_ok[OF pos, of "py_slice_to ps k" tol 0] obtain a where
    a: "count_aligned (py_slice_to ps k) f tol 0 = Inr a" "a \<le> length (py_slice_to ps k)"
    by auto
  have "int a \<le> k" using a(2) py_slice_to_length[OF k0, of ps] by linarith
  then have le: "real a \<le> of_int (max k 1)" by (simp add: max_def)
  have "(0::real) < of_int (max k 1)" by (simp add: max_def)
  then have "real a / of_int (max k 1) \<le> 1" "0 \<le> real a / of_int (max k 1)"
    "(of_int (max k 1) :: real) \<noteq> 0"
    using le by (simp_all add: divide_le_eq_1)
  then show ?thesis using False a(1)
    by (simp add: harmonic_grid_fit_score_gen_def k_def[symmetric] py_div_def Let_def)
qed

text \<open>
  Claim C9. With the default tolerance and peak count, the harmonic-grid fit score
  never raises (in particular no division has a zero denominator) and returns a value
  between 0 and 1, for every peak list, with or without \<^verbatim>\<open>hz\<close> entries, and every
  candidate fundamental; the value is 0 when the list is empty or the candidate is not
  positive.
\<close>

theorem fit_score_total_and_bounded:
  "\<exists>v. harmonic_grid_fit_score ps f = Inr v \<and> 0 \<le> v \<and> v \<le> 1
       \<and> (ps = [] \<or> f \<le> 0 \<longrightarrow> v = 0)"
proof -
  have "(0::int) \<le> int SUMMARY_PEAKS" by simp
  from fit_gen_bounded[OF this, of ps f "3 / 100"] show ?thesis
    unfolding harmonic_grid_fit_score_def by (auto split: if_splits)
qed

theorem fit_score_total_and_bounded_witness:
  "(\<exists>v. harmonic_grid_fit_score [] 220 = Inr v \<and> 0 \<le> v \<and> v \<le> 1 \<and> v = 0)
   \<and> (\<exists>v. harmonic_grid_fit_score
             [\<lparr>hz = None, rel_amp_db = 0, peak_confidence = 1, harmonic_index_guess = None\<rparr>]
             (- 5) = Inr v \<and> 0 \<le> v \<and> v \<le> 1 \<and> v = 0)
   \<and> harmonic_grid_fit_score
         [\<lparr>hz = Some 440, rel_amp_db = 0, peak_confidence = 1, harmonic_index_guess = None\<rparr>,
          \<lparr>hz = None, rel_amp_db = 0, peak_confidence = 1, harmonic_index_guess = None\<rparr>]
         220 = Inr (1 / 2)"
proof (intro conjI)
  show "\<exists>v. harmonic_grid_fit_score [] 220 = Inr v \<and> 0 \<le> v \<and> v \<le> 1 \<and> v = 0"
    using fit_score_total_and_bounded[of "[]" 220] by auto
next
  show "\<exists>v. harmonic_grid_fit_score
             [\<lparr>hz = None, rel_amp_db = 0, peak_confidence = 1, harmonic_index_guess = None\<rparr>]
             (- 5) = Inr v \<and> 0 \<le> v \<and> v \<le> 1 \<and> v = 0"
    using fit_score_total_and_bounded[of _ "- 5"] by auto
next
  show "harmonic_grid_fit_score
         [\<lparr>hz = Some 440, rel_amp_db = 0, peak_confidence = 1, harmonic_index_guess = None\<rparr>,
          \<lparr>hz = None, rel_amp_db = 0, peak_confidence = 1, harmonic_index_guess = None\<rparr>]
         220 = Inr (1 / 2)"
    by (simp add: harmonic_grid_fit_score_def harmonic_grid_fit_score_gen_def SUMMARY_PEAKS_def
        py_slice_to_def py_div_def peak_get_hz_def py_round_def Let_def e9_def)
qed

section \<open>Verification: octave corrector\<close>

text \<open>The value of the fit score, which never is an error.\<close>

definition fit_value :: "peak list \<Rightarrow> real \<Rightarrow> real" where
  "fit_value ps f = (case harmonic_grid_fit_score ps f of Inl e \<Rightarrow> 0 | Inr v \<Rightarrow> v)"

text \<open>The tuple \<^verbatim>\<open>(cand, fit, cents_shift, in_range)\<close> of a candidate.\<close>

definition scored_of :: "real \<Rightarrow> peak list \<Rightarrow> real \<Rightarrow> scored" where
  "scored_of prelim ps cand =
     (cand, fit_value ps cand, \<bar>1200 * log 2 (max cand e9 / max prelim e9)\<bar>,
      MIN_F0_HZ \<le> cand \<and> cand \<le> MAX_F0_HZ)"

lemma fit_score_value: "harmonic_grid_fit_score ps f = Inr (fit_value ps f)"
proof -
  have "(0::int) \<le> int SUMMARY_PEAKS" by simp
  from fit_gen_bounded[OF this, of ps f "3 / 100"] show ?thesis
    unfolding harmonic_grid_fit_score_def fit_value_def by auto
qed

lemma clamped_ratio_pos: "0 < max a e9 / max b e9"
  using max_e9_pos by simp

lemma score_candidate_value: "score_candidate prelim ps cand = Inr (scored_of prelim ps cand)"
proof -
  have nz: "max prelim e9 \<noteq> 0"
    using max_e9_pos[of prelim] by simp
  have pos: "\<not> max cand e9 / max prelim e9 \<le> 0"
    using clamped_ratio_pos[of cand prelim] by simp
  show ?thesis
    using nz pos
    by (simp add: score_candidate_def fit_score_value py_div_def py_log2_def scored_of_def)
qed

lemma score_all_value: "score_all prelim ps cands = Inr (map (scored_of prelim ps) cands)"
  by (induction cands) (simp_all add: score_candidate_value)

lemma py_sort_reverse_head:
  assumes "py_sort_reverse f xs = b # rest"
  shows "b \<in> set xs \<and> (\<forall>x \<in> set xs. f x \<le> f b)"
proof -
  from assms have eq: "sort_key f (rev xs) = rev rest @ [b]"
    unfolding py_sort_reverse_def by (metis rev.simps(2) rev_rev_ident)
  have "set (sort_key f (rev xs)) = set xs" by simp
  with eq have mem: "set xs = insert b (set rest)" by auto
  have "sorted (map f (sort_key f (rev xs)))" by (rule sorted_sort_key)
  with eq have "\<forall>x \<in> set rest. f x \<le> f b"
    by (simp add: sorted_append)
  with mem show ?thesis by auto
qed

lemma py_sort_reverse_nonempty: "xs \<noteq> [] \<Longrightarrow> py_sort_reverse f xs \<noteq> []"
  unfolding py_sort_reverse_def by (metis length_sort length_rev length_0_conv)

lemma best_scored_value:
  "\<exists>c \<in> set (octave_candidates prelim).
     best_scored prelim ps = Inr (scored_of prelim ps c)
     \<and> (\<forall>c' \<in> set (octave_candidates prelim).
          scored_key (scored_of prelim ps c') \<le> scored_key (scored_of prelim ps c))"
proof -
  let ?ss = "map (scored_of prelim ps) (octave_candidates prelim)"
  have "?ss \<noteq> []" by (simp add: octave_candidates_def)
  then obtain b rest where br: "py_sort_reverse scored_key ?ss = b # rest"
    using py_sort_reverse_nonempty[of ?ss scored_key] by (cases "py_sort_reverse scored_key ?ss") auto
  from py_sort_reverse_head[OF br] have
    mem: "b \<in> set ?ss" and mx: "\<forall>x \<in> set ?ss. scored_key x \<le> scored_key b"
    by auto
  from mem obtain c where c: "c \<in> set (octave_candidates prelim)" "b = scored_of prelim ps c"
    by auto
  have "best_scored prelim ps = Inr b"
    by (simp add: best_scored_def score_all_value br)
  with c mx show ?thesis by auto
qed

lemma in_range_clamps:
  assumes "c \<in> set (octave_candidates prelim)" "MIN_F0_HZ \<le> c"
  shows "max c e9 = c \<and> max prelim e9 = prelim"
proof -
  have "e9 < 1" by (simp add: e9_def)
  moreover have "40 \<le> c" using assms(2) by (simp add: MIN_F0_HZ_def)
  moreover have "20 \<le> prelim"
    using assms \<open>40 \<le> c\<close> by (auto simp: octave_candidates_def)
  ultimately show ?thesis by (simp add: max_def)
qed

text \<open>
  Claim C3. The corrector never raises. With \<open>best_f0\<close> the first element of the
  sorted candidates, it accepts exactly when the magnitude of
  \<open>log2 (best_f0 / preliminary_f0)\<close> is strictly between 0.9 and 1.1, the fit of
  \<open>best_f0\<close> exceeds the fit of the preliminary value by at least 0.15, and \<open>best_f0\<close>
  is within 40 and 2000 Hz. On acceptance it returns \<open>best_f0\<close>, its fit and the record
  of the four values; otherwise it returns the preliminary value, its fit and no
  record.
\<close>

theorem octave_corrector_accepts_iff:
  "\<exists>best_f0 best_fit shift in_range before_fit.
     best_scored prelim ps = Inr (best_f0, best_fit, shift, in_range)
     \<and> best_f0 \<in> set (octave_candidates prelim)
     \<and> harmonic_grid_fit_score ps best_f0 = Inr best_fit
     \<and> harmonic_grid_fit_score ps prelim = Inr before_fit
     \<and> correct_octave_by_harmonic_fit prelim ps =
         Inr (if 9 / 10 < \<bar>log 2 (best_f0 / prelim)\<bar> \<and> \<bar>log 2 (best_f0 / prelim)\<bar> < 11 / 10
                 \<and> 15 / 100 \<le> best_fit - before_fit
                 \<and> MIN_F0_HZ \<le> best_f0 \<and> best_f0 \<le> MAX_F0_HZ
              then (best_f0, best_fit,
                    Some \<lparr>original_f0_hz = prelim, corrected_f0_hz = best_f0,
                          harmonic_fit_before = before_fit, harmonic_fit_after = best_fit\<rparr>,
                    True)
              else (prelim, before_fit, None, False))"
proof -
  from best_scored_value[of prelim ps] obtain c where
    c: "c \<in> set (octave_candidates prelim)" "best_scored prelim ps = Inr (scored_of prelim ps c)"
    by blast
  have nz: "max prelim e9 \<noteq> 0"
    using max_e9_pos[of prelim] by simp
  have pos: "\<not> max c e9 / max prelim e9 \<le> 0"
    using clamped_ratio_pos[of c prelim] by simp
  have clamp: "MIN_F0_HZ \<le> c \<Longrightarrow> max c e9 / max prelim e9 = c / prelim"
    using in_range_clamps[OF c(1)] by simp
  have res: "correct_octave_by_harmonic_fit prelim ps =
      Inr (if 9 / 10 < \<bar>log 2 (c / prelim)\<bar> \<and> \<bar>log 2 (c / prelim)\<bar> < 11 / 10
              \<and> 15 / 100 \<le> fit_value ps c - fit_value ps prelim
              \<and> MIN_F0_HZ \<le> c \<and> c \<le> MAX_F0_HZ
           then (c, fit_value ps c,
                 Some \<lparr>original_f0_hz = prelim, corrected_f0_hz = c,
                       harmonic_fit_before = fit_value ps prelim,
                       harmonic_fit_after = fit_value ps c\<rparr>,
                 True)
           else (prelim, fit_value ps prelim, None, False))"
  proof (cases "MIN_F0_HZ \<le> c")
    case True
    show ?thesis
      using nz pos clamp[OF True]
      by (simp add: correct_octave_by_harmonic_fit_def c(2) scored_of_def fit_score_value
          py_div_def py_log2_def Let_def)
  next
    case False
    show ?thesis
      using nz pos False
      by (simp add: correct_octave_by_harmonic_fit_def c(2) scored_of_def fit_score_value
          py_div_def py_log2_def Let_def)
  qed
  show ?thesis
    apply (rule exI[of _ c])
    apply (rule exI[of _ "fit_value ps c"])
    apply (rule exI[of _ "\<bar>1200 * log 2 (max c e9 / max prelim e9)\<bar>"])
    apply (rule exI[of _ "MIN_F0_HZ \<le> c \<and> c \<le> MAX_F0_HZ"])
    apply (rule exI[of _ "fit_value ps prelim"])
    using c res by (simp add: scored_of_def fit_score_value)
qed

text \<open>A peak dictionary with the given frequency, for the concrete inputs below.\<close>

definition hz_peak :: "real \<Rightarrow> peak" where
  "hz_peak h = \<lparr>hz = Some h, rel_amp_db = 0, peak_confidence = 1, harmonic_index_guess = None\<rparr>"

lemma log2_half: "log 2 (1 / 2) = - 1"
  by (simp add: log_divide)

lemmas corrector_eval =
  correct_octave_by_harmonic_fit_def best_scored_def octave_candidates_def score_candidate_def
  harmonic_grid_fit_score_def harmonic_grid_fit_score_gen_def SUMMARY_PEAKS_def
  py_slice_to_def py_div_def peak_get_hz_def py_round_def Let_def e9_def hz_peak_def py_log2_def
  log2_half MIN_F0_HZ_def MAX_F0_HZ_def py_sort_reverse_def scored_key_def

text \<open>
  Two runs of the corrector. A preliminary 200 Hz against peaks at 100, 300 and 500 Hz
  is corrected to 100 Hz (fit 0 before, 1 after); a preliminary 100 Hz against the
  same peaks is returned unchanged, without a record.
\<close>

theorem octave_corrector_accepts_iff_witness:
  "correct_octave_by_harmonic_fit 200 [hz_peak 100, hz_peak 300, hz_peak 500] =
     Inr (100, 1,
          Some \<lparr>original_f0_hz = 200, corrected_f0_hz = 100,
                harmonic_fit_before = 0, harmonic_fit_after = 1\<rparr>,
          True)
   \<and> correct_octave_by_harmonic_fit 100 [hz_peak 100, hz_peak 300, hz_peak 500] =
     Inr (100, 1, None, False)"
  using octave_corrector_accepts_iff[of 200 "[hz_peak 100, hz_peak 300, hz_peak 500]"]
  by (simp add: corrector_eval)

lemma scored_key_le_iff:
  "scored_key (c, fit, shift, inr) \<le> scored_key (c', fit', shift', inr') \<longleftrightarrow>
     fit < fit' \<or> (fit = fit' \<and> (inr \<longrightarrow> inr') \<and> (inr = inr' \<longrightarrow> shift' \<le> shift))"
  by (auto simp: scored_key_def less_eq_prod_def)

text \<open>
  Claim C5, as the code has it. The candidate the corrector picks among \<open>f0\<close>,
  \<open>f0 / 2\<close> and \<open>f0 * 2\<close> has the greatest fit; among the candidates of greatest fit it
  is within the valid range if one of them is; and among the candidates tied with it
  on both, it has the smallest octave shift away from the preliminary value, not the
  largest.
\<close>

theorem octave_corrector_choice:
  "\<exists>b_f0 b_fit b_shift b_in.
     best_scored prelim ps = Inr (b_f0, b_fit, b_shift, b_in)
     \<and> b_f0 \<in> set (octave_candidates prelim)
     \<and> score_candidate prelim ps b_f0 = Inr (b_f0, b_fit, b_shift, b_in)
     \<and> (\<forall>c \<in> set (octave_candidates prelim).
          \<exists>fit shift inr.
            score_candidate prelim ps c = Inr (c, fit, shift, inr)
            \<and> (fit < b_fit
                \<or> (fit = b_fit \<and> (inr \<longrightarrow> b_in) \<and> (inr = b_in \<longrightarrow> b_shift \<le> shift))))"
proof -
  from best_scored_value[of prelim ps] obtain b where
    b: "b \<in> set (octave_candidates prelim)"
       "best_scored prelim ps = Inr (scored_of prelim ps b)"
       "\<forall>c' \<in> set (octave_candidates prelim).
          scored_key (scored_of prelim ps c') \<le> scored_key (scored_of prelim ps b)"
    by blast
  obtain b_fit b_shift b_in where sb: "scored_of prelim ps b = (b, b_fit, b_shift, b_in)"
    by (simp add: scored_of_def)
  have "\<exists>fit shift inr.
          score_candidate prelim ps c = Inr (c, fit, shift, inr)
          \<and> (fit < b_fit
              \<or> (fit = b_fit \<and> (inr \<longrightarrow> b_in) \<and> (inr = b_in \<longrightarrow> b_shift \<le> shift)))"
    if c: "c \<in> set (octave_candidates prelim)" for c
  proof -
    obtain fit shift inr where sc: "scored_of prelim ps c = (c, fit, shift, inr)"
      by (simp add: scored_of_def)
    from b(3) c have "scored_key (scored_of prelim ps c) \<le> scored_key (scored_of prelim ps b)"
      by blast
    then have "fit < b_fit
       \<or> (fit = b_fit \<and> (inr \<longrightarrow> b_in) \<and> (inr = b_in \<longrightarrow> b_shift \<le> shift))"
      unfolding sc sb scored_key_le_iff .
    then show ?thesis
      using sc by (simp add: score_candidate_value)
  qed
  then show ?thesis
    using b(1,2) sb by (auto simp: score_candidate_value)
qed

theorem octave_corrector_choice_witness:
  "best_scored 200 [hz_peak 100, hz_peak 300, hz_peak 500] = Inr (100, 1, 1200, True)
   \<and> score_candidate 200 [hz_peak 100, hz_peak 300, hz_peak 500] 200 = Inr (200, 0, 0, True)
   \<and> score_candidate 200 [hz_peak 100, hz_peak 300, hz_peak 500] 400 = Inr (400, 0, 1200, True)"
  using octave_corrector_choice[of 200 "[hz_peak 100, hz_peak 300, hz_peak 500]"]
  by (simp add: corrector_eval)

text \<open>
  The claim as stated fails on a harmonic spectrum. For a preliminary 100 Hz with
  peaks at 100, 200 and 300 Hz, the candidates 100 Hz and 50 Hz tie on fit (1) and on
  range membership; 50 Hz has the larger shift (1200 cents against 0), and the
  corrector picks 100 Hz.
\<close>

theorem octave_corrector_larger_shift_counterexample:
  "score_all 100 [hz_peak 100, hz_peak 200, hz_peak 300] (octave_candidates 100) =
     Inr [(100, 1, 0, True), (50, 1, 1200, True), (200, 1 / 3, 1200, True)]
   \<and> best_scored 100 [hz_peak 100, hz_peak 200, hz_peak 300] = Inr (100, 1, 0, True)"
  by (simp add: corrector_eval)

section \<open>Verification: window selector\<close>

lemma reshape_rows_Nil: "reshape_rows [] k = []"
  by simp

lemma reshape_rows_Cons:
  "0 < k \<Longrightarrow> reshape_rows (v # vs) k = take k (v # vs) # reshape_rows (drop k (v # vs)) k"
  by simp

declare reshape_rows.simps [simp del]

lemma py_range_bounds:
  assumes "0 < step" "s \<in> set (py_range start stop step)"
  shows "start \<le> s \<and> s < stop"
proof -
  define cnt where "cnt = (stop - start + step - 1) div step"
  from assms(2) obtain i where i: "i < nat cnt" "s = start + int i * step"
    unfolding py_range_def cnt_def by auto
  have "cnt * step = (stop - start + step - 1) - (stop - start + step - 1) mod step"
    unfolding cnt_def by (simp add: minus_mod_eq_div_mult)
  moreover have "0 \<le> (stop - start + step - 1) mod step"
    using assms(1) by simp
  ultimately have "cnt * step \<le> stop - start + step - 1"
    by linarith
  moreover have "int i + 1 \<le> cnt" using i(1) by linarith
  then have "(int i + 1) * step \<le> cnt * step"
    using assms(1) by (simp add: mult_right_mono)
  ultimately have "int i * step + step \<le> stop - start + step - 1"
    by (simp add: algebra_simps)
  moreover have "0 \<le> int i * step" using assms(1) by simp
  ultimately show ?thesis using i(2) by linarith
qed


lemma select_step_cases: "select_step st cand = st \<or> select_step st cand = cand"
  by (auto simp: select_step_def split: prod.splits option.splits)

lemma select_window_start:
  "fst (select_window cands st) = fst st \<or> fst (select_window cands st) \<in> fst ` set cands"
proof (induction cands arbitrary: st)
  case Nil
  then show ?case by simp
next
  case (Cons c cs)
  from Cons.IH[of "select_step st c"] select_step_cases[of st c]
  show ?case by auto
qed

lemma py_int_nonneg: "0 \<le> v \<Longrightarrow> 0 \<le> py_int v"
  by (simp add: py_int_def)

lemma py_int_of_int: "py_int (of_int k) = k"
  by (simp add: py_int_def)

lemma window_params_facts:
  assumes "0 < sr" "window_params n sr = (start_idx, available, win, frame)"
  shows "0 \<le> start_idx" "start_idx \<le> int n" "available = int n - start_idx" "0 < frame"
    "0 < available \<Longrightarrow> 0 < win \<and> win \<le> available"
proof -
  have ig: "0 \<le> py_int (WINDOW_IGNORE_S * of_int sr)"
    using assms(1) by (intro py_int_nonneg) (simp add: WINDOW_IGNORE_S_def)
  have mw: "py_int (WINDOW_TARGET_S * of_int sr) = sr"
    by (simp add: WINDOW_TARGET_S_def py_int_of_int)
  note defs = window_params_def Let_def mw
  show "0 \<le> start_idx" using assms(2) ig by (auto simp: defs)
  show "start_idx \<le> int n" using assms(2) by (auto simp: defs)
  show "available = int n - start_idx" using assms(2) by (auto simp: defs)
  have "frame = max 1 (py_int (RMS_FRAME_S * of_int sr))"
    using assms(2) by (simp add: defs)
  then show "0 < frame" by simp
  show "0 < win \<and> win \<le> available" if "0 < available"
    using that assms by (auto simp: defs split: if_splits)
qed

text \<open>
  Claim C10. For a non-empty waveform and a positive sample rate the window selector
  returns, and its indices satisfy \<open>0 \<le> start < end \<le> n\<close>; when the lead-in
  \<open>int(0.20 * sr)\<close> is at least \<open>n\<close>, they are \<open>(0, n)\<close>.
\<close>

theorem pick_stable_window_valid_slice:
  assumes "x \<noteq> []" "0 < sr"
  shows "\<exists>s e note.
           pick_stable_window x sr = Inr (s, e, note)
           \<and> 0 \<le> s \<and> s < e \<and> e \<le> int (length x)
           \<and> (int (length x) \<le> py_int (WINDOW_IGNORE_S * of_int sr)
                \<longrightarrow> s = 0 \<and> e = int (length x))"
proof -
  obtain start_idx available win frame where
    wp: "window_params (length x) sr = (start_idx, available, win, frame)"
    by (metis prod_cases4)
  note facts = window_params_facts[OF assms(2) wp]
  have n_pos: "0 < int (length x)" using assms(1) by simp
  have sdef: "start_idx = min (py_int (WINDOW_IGNORE_S * of_int sr)) (int (length x))"
    using wp by (simp add: window_params_def Let_def)
  show ?thesis
  proof (cases "available \<le> 0")
    case True
    then show ?thesis
      using wp n_pos by (simp add: pick_stable_window_def)
  next
    case False
    then have av: "0 < available" by simp
    from facts(5)[OF av] have win: "0 < win" "win \<le> available" by auto
    have lead: "\<not> int (length x) \<le> py_int (WINDOW_IGNORE_S * of_int sr)"
      using av facts(3) sdef by linarith
    obtain best_start best_var where
      sel: "select_window (scanned_candidates x sr) (start_idx, None) = (best_start, best_var)"
      by (metis surj_pair)
    have starts: "fst ` set (scanned_candidates x sr)
                  \<subseteq> set (py_range start_idx (int (length x) - win + 1) frame)"
      by (auto simp: scanned_candidates_def wp)
    from select_window_start[of "scanned_candidates x sr" "(start_idx, None)"] sel
    have "best_start = start_idx \<or> best_start \<in> fst ` set (scanned_candidates x sr)"
      by simp
    then have bs: "start_idx \<le> best_start \<and> best_start \<le> int (length x) - win"
    proof
      assume "best_start = start_idx"
      then show ?thesis using win facts(3) by linarith
    next
      assume "best_start \<in> fst ` set (scanned_candidates x sr)"
      with starts have "best_start \<in> set (py_range start_idx (int (length x) - win + 1) frame)"
        by blast
      from py_range_bounds[OF facts(4) this] show ?thesis by linarith
    qed
    have sr0: "(of_int sr :: real) \<noteq> 0" using assms(2) by simp
    show ?thesis
      using wp False sel bs win facts(1) sr0 lead
      by (simp add: pick_stable_window_def py_div_def)
  qed
qed

lemmas window_params_eval =
  window_params_def py_int_def WINDOW_IGNORE_S_def WINDOW_TARGET_S_def WINDOW_MIN_S_def
  RMS_FRAME_S_def

text \<open>
  Two runs: three samples at 20 Hz (the lead-in of 4 samples consumes the signal), and
  five samples at 1 Hz, where every window of one sample has variance 0 and the last
  start wins.
\<close>

theorem pick_stable_window_valid_slice_witness:
  "pick_stable_window [0, 0, 0] 20 =
     Inr (0, 3, ''audio shorter than ignore lead-in; using full signal'')
   \<and> pick_stable_window [1, 1, 1, 1, 1] 1 = Inr (4, 5, [])"
proof -
  have p1: "window_params (length [1, 1, 1, 1, 1 :: real]) 1 = (0, 5, 1, 1)"
    by (simp add: window_params_eval)
  have r1: "py_range 0 5 1 = [0, 1, 2, 3, 4]"
    by (simp add: py_range_def upt_rec)
  have v: "window_variance [1, 1, 1, 1, 1] 1 1 s = Some 0" if "s \<in> {0, 1, 2, 3, 4}" for s
    using that
    by (auto simp: window_variance_def py_slice_def py_clamp_index_def py_slice_to_def
        np_mean_def np_var_def Let_def reshape_rows_Nil reshape_rows_Cons)
  have sc: "scanned_candidates [1, 1, 1, 1, 1] 1 =
      [(0, Some 0), (1, Some 0), (2, Some 0), (3, Some 0), (4, Some 0)]"
    unfolding scanned_candidates_def p1 by (simp add: r1 v)
  have a: "pick_stable_window [1, 1, 1, 1, 1] 1 = Inr (4, 5, [])"
    unfolding pick_stable_window_def Let_def p1 sc
    by (simp add: select_step_def better_window_def e12_def py_div_def)
  have p2: "window_params (length [0, 0, 0 :: real]) 20 = (3, 0, 0, 1)"
    by (simp add: window_params_eval)
  have b: "pick_stable_window [0, 0, 0] 20 =
     Inr (0, 3, ''audio shorter than ignore lead-in; using full signal'')"
    unfolding pick_stable_window_def Let_def p2 by simp
  have ne: "[1, 1, 1, 1, 1 :: real] \<noteq> []" and sr: "(0::int) < 1"
    by simp_all
  from pick_stable_window_valid_slice[OF ne sr] a b show ?thesis
    by simp
qed





























section \<open>Verification: pitch tracker\<close>

lemma length_np_hanning: "length (np_hanning M) = M"
  by (simp add: np_hanning_def)

lemma length_py_slice_inside:
  assumes "0 \<le> a" "a \<le> b" "b \<le> int (length xs)"
  shows "length (py_slice xs a b) = nat (b - a)"
  using assms by (simp add: py_slice_def py_clamp_index_def Let_def min_def) linarith

lemma length_autocorr: "length (autocorr fr) = length fr"
  by (simp add: autocorr_def)

lemma argmax_from_bound:
  "best_i < i \<Longrightarrow> argmax_from vs i best_i best_v < i + length vs"
proof (induction vs arbitrary: i best_i best_v)
  case Nil
  then show ?case by simp
next
  case (Cons v vs)
  have a: "argmax_from vs (i + 1) i v < i + 1 + length vs"
    by (rule Cons.IH) simp
  have b: "argmax_from vs (i + 1) best_i best_v < i + 1 + length vs"
    by (rule Cons.IH) (use Cons.prems in simp)
  from a b show ?case by simp
qed

lemma np_argmax_bound: "vs \<noteq> [] \<Longrightarrow> np_argmax vs < length vs"
proof (cases vs)
  case Nil
  then show "vs \<noteq> [] \<Longrightarrow> ?thesis" by simp
next
  case (Cons v rest)
  from argmax_from_bound[of 0 1 rest v] show ?thesis
    by (simp add: np_argmax_def Cons)
qed

lemma np_clip_unit: "0 \<le> np_clip v 0 1 \<and> np_clip v 0 1 \<le> 1"
  by (simp add: np_clip_def)

lemma lag_bounds_value:
  assumes "min_hz \<noteq> 0" "max_hz \<noteq> 0"
  shows "lag_bounds sr min_hz max_hz =
           Inr (max 1024 (py_int (46 / 1000 * of_int sr)),
                max 256 (max 1024 (py_int (46 / 1000 * of_int sr)) div 4),
                max 1 \<lfloor>of_int sr / max_hz\<rfloor>,
                min (max 1024 (py_int (46 / 1000 * of_int sr)) - 1) \<lceil>of_int sr / min_hz\<rceil>)"
  using assms by (simp add: lag_bounds_def py_div_def Let_def)

text \<open>
  The frame at offset \<open>s\<close> after windowing and mean removal, and its energy, the
  autocorrelation at lag 0 that the loop tests.
\<close>

definition centered_frame :: "real list \<Rightarrow> int \<Rightarrow> int \<Rightarrow> real list" where
  "centered_frame xp frame_size s =
     (let windowed = map2 (*) (py_slice xp s (s + frame_size)) (np_hanning (nat frame_size))
      in map (\<lambda>v. v - np_mean windowed) windowed)"

definition frame_energy :: "real list \<Rightarrow> int \<Rightarrow> int \<Rightarrow> real" where
  "frame_energy xp frame_size s = autocorr_at (centered_frame xp frame_size s) 0"

text \<open>
  One frame inside the array never raises; it yields no estimate exactly when its
  energy is not positive, and otherwise a lag within the search bounds, the frequency
  \<open>sr / lag\<close> and a confidence in \<open>[0, 1]\<close>.
\<close>

lemma analyze_frame_ok:
  assumes "1 \<le> lmin" "lmin < lmax" "lmax \<le> frame_size - 1"
    and "0 \<le> s" "s + frame_size \<le> int (length xp)"
  shows "\<exists>r. analyze_frame xp sr frame_size lmin lmax s = Inr r
             \<and> (r = None) = (frame_energy xp frame_size s \<le> 0)
             \<and> (case r of
                  None \<Rightarrow> True
                | Some (lag, f0, conf) \<Rightarrow>
                    lmin \<le> lag \<and> lag < lmax \<and> f0 = of_int sr / of_int lag
                    \<and> 0 \<le> conf \<and> conf \<le> 1)"
proof -
  define windowed where
    "windowed = map2 (*) (py_slice xp s (s + frame_size)) (np_hanning (nat frame_size))"
  define frame where "frame = map (\<lambda>v. v - np_mean windowed) windowed"
  define ac where "ac = autocorr frame"
  have cf: "centered_frame xp frame_size s = frame"
    by (simp add: centered_frame_def Let_def windowed_def frame_def)
  have fs: "3 \<le> frame_size" using assms(1-3) by linarith
  have "length (py_slice xp s (s + frame_size)) = nat frame_size"
    using length_py_slice_inside[of s "s + frame_size" xp] assms(4,5) fs by simp
  then have len_w: "length windowed = nat frame_size"
    by (simp add: windowed_def length_np_hanning)
  then have len_ac: "length ac = nat frame_size"
    by (simp add: ac_def frame_def length_autocorr)
  then obtain ac0 rest where ac: "ac = ac0 # rest"
    using fs by (cases ac) auto
  have "ac ! 0 = autocorr_at frame 0"
    using len_ac fs by (simp add: ac_def autocorr_def)
  then have energy: "frame_energy xp frame_size s = ac0"
    by (simp add: frame_energy_def cf ac)
  have unfold: "analyze_frame xp sr frame_size lmin lmax s =
      (if ac0 \<le> 0 then Inr None
       else
         (let acn = map (\<lambda>v. v / (ac0 + e12)) ac;
              search = py_slice acn lmin lmax
          in if search = [] then Inr None
             else
               (let lag = int (np_argmax search) + lmin
                in if lag < 0 \<or> int (length acn) \<le> lag then Inl IndexError
                   else
                     (case py_div (of_int sr) (of_int lag) of
                        Inl e \<Rightarrow> Inl e
                      | Inr f0 \<Rightarrow> Inr (Some (lag, f0, np_clip (acn ! nat lag) 0 1))))))"
    unfolding analyze_frame_def Let_def windowed_def[symmetric]
    unfolding frame_def[symmetric]
    unfolding ac_def[symmetric]
    unfolding ac
    by simp
  show ?thesis
  proof (cases "ac0 \<le> 0")
    case True
    then show ?thesis
      unfolding unfold by (simp add: energy)
  next
    case False
    define acn where "acn = map (\<lambda>v. v / (ac0 + e12)) ac"
    define search where "search = py_slice acn lmin lmax"
    have len_acn: "length acn = nat frame_size" by (simp add: acn_def len_ac)
    have "length search = nat (lmax - lmin)"
      unfolding search_def
      using length_py_slice_inside[of lmin lmax acn] assms(1-3) len_acn by simp
    then have ne: "search \<noteq> []" and len_s: "int (length search) = lmax - lmin"
      using assms(2) by auto
    define lag where "lag = int (np_argmax search) + lmin"
    have lag: "lmin \<le> lag" "lag < lmax"
      using np_argmax_bound[OF ne] len_s by (simp_all add: lag_def)
    have in_range: "\<not> (lag < 0 \<or> int (length acn) \<le> lag)"
      using lag assms(1,3) len_acn by simp
    have nz: "(of_int lag :: real) \<noteq> 0" using lag assms(1) by simp
    have "analyze_frame xp sr frame_size lmin lmax s =
            Inr (Some (lag, of_int sr / of_int lag, np_clip (acn ! nat lag) 0 1))"
      unfolding unfold Let_def acn_def[symmetric]
      unfolding search_def[symmetric]
      unfolding lag_def[symmetric]
      using False ne in_range nz by (simp add: py_div_def)
    then show ?thesis
      using lag np_clip_unit False by (simp add: energy)
  qed
qed

lemma frame_loop_ok:
  assumes "1 \<le> lmin" "lmin < lmax" "lmax \<le> frame_size - 1"
    and "\<forall>s \<in> set starts. 0 \<le> s \<and> s + frame_size \<le> int (length xp)"
  shows "\<exists>lags f0s confs.
           frame_loop xp sr frame_size lmin lmax starts acc = Inr (lags, f0s, confs)"
  using assms(4)
proof (induction starts arbitrary: acc)
  case Nil
  then show ?case by (cases acc) auto
next
  case (Cons s ss)
  from Cons.prems have s: "0 \<le> s" "s + frame_size \<le> int (length xp)" by auto
  from analyze_frame_ok[OF assms(1-3) s, of sr] obtain r where
    r: "analyze_frame xp sr frame_size lmin lmax s = Inr r" by blast
  from Cons.prems have rest: "\<forall>s \<in> set ss. 0 \<le> s \<and> s + frame_size \<le> int (length xp)"
    by simp
  show ?case
  proof (cases r)
    case None
    with r Cons.IH[OF rest, of acc] show ?thesis by simp
  next
    case (Some t)
    obtain lag f0 conf where t: "t = (lag, f0, conf)" by (cases t)
    obtain lags f0s confs where acc: "acc = (lags, f0s, confs)" by (cases acc)
    from Cons.IH[OF rest, of "(lags @ [lag], f0s @ [f0], confs @ [conf])"]
    show ?thesis using r Some t acc by simp
  qed
qed

lemma padded_input_length:
  "frame_size \<le> int (length (fst (padded_input x frame_size)))"
  by (simp add: padded_input_def np_pad_right_def)

lemma frame_starts_inside:
  assumes "0 < hop" "s \<in> set (frame_starts xp frame_size hop)"
  shows "0 \<le> s \<and> s + frame_size \<le> int (length xp)"
  using py_range_bounds[OF assms(1), of s 0 "int (length xp) - frame_size + 1"] assms(2)
  by (simp add: frame_starts_def)

lemma frame_starts_short:
  assumes "0 < hop" "int (length xp) = frame_size"
  shows "frame_starts xp frame_size hop = [0]"
proof -
  have "(hop div hop) = 1" using assms(1) by simp
  then show ?thesis
    using assms by (simp add: frame_starts_def py_range_def)
qed

text \<open>
  The frame made of the two samples 0 and 1 and 2206 zeros has positive energy: the
  Hann window is positive at index 1, so the sample there differs from the mean.
\<close>

lemma two_sample_energy: "0 < frame_energy ([0, 1] @ replicate 2206 0) 2208 0"
proof -
  define xp :: "real list" where "xp = [0, 1] @ replicate 2206 0"
  define h :: "nat \<Rightarrow> real" where "h = (\<lambda>n. 1 / 2 - 1 / 2 * cos (2 * pi * real n / 2207))"
  define windowed where "windowed = map2 (*) xp (map h [0 ..< 2208])"
  define m where "m = np_mean windowed"
  define frame where "frame = map (\<lambda>v. v - m) windowed"
  have len_xp: "length xp = 2208" by (simp add: xp_def)
  have hann: "np_hanning (nat 2208) = map h [0 ..< 2208]"
    by (simp add: np_hanning_def h_def)
  have sl: "py_slice xp 0 (0 + 2208) = xp"
    by (simp add: py_slice_def py_clamp_index_def len_xp)
  have cf: "centered_frame xp 2208 0 = frame"
    unfolding centered_frame_def Let_def sl hann
    by (simp add: frame_def m_def windowed_def)
  have len_w: "length windowed = 2208" by (simp add: windowed_def len_xp)
  have xp_nth: "xp ! j = (if j = 1 then 1 else 0)" if "j < 2208" for j
  proof (cases j)
    case 0
    then show ?thesis by (simp add: xp_def)
  next
    case (Suc k)
    then show ?thesis using that by (cases k) (simp_all add: xp_def)
  qed
  have w_nth: "windowed ! j = (if j = 1 then h 1 else 0)" if "j < 2208" for j
    using that xp_nth[OF that] by (simp add: windowed_def len_xp)
  have "sum_list windowed = (\<Sum>j = 0 ..< 2208. windowed ! j)"
    using len_w by (simp add: sum_list_sum_nth)
  also have "\<dots> = (\<Sum>j = 0 ..< 2208. if j = (1::nat) then h 1 else 0)"
    by (rule sum.cong) (simp_all add: w_nth)
  also have "\<dots> = h 1" by (simp add: sum.delta)
  finally have sum_w: "sum_list windowed = h 1" .
  have m: "m = h 1 / 2208" by (simp add: m_def np_mean_def sum_w len_w)
  have "cos (2 * pi / 2207) < cos 0"
    by (rule cos_monotone_0_pi) (simp_all add: pi_gt_zero)
  then have h1: "0 < h 1" by (simp add: h_def)
  have f1: "frame ! 1 = h 1 - h 1 / 2208"
    by (simp add: frame_def len_w w_nth m)
  have f1_pos: "0 < frame ! 1" unfolding f1 using h1 by simp
  have "frame_energy xp 2208 0 = (\<Sum>j = 0 ..< 2208. frame ! j * frame ! j)"
    by (simp add: frame_energy_def cf autocorr_at_def frame_def len_w
        interv_sum_list_conv_sum_set_nat)
  moreover have "frame ! 1 * frame ! 1 \<le> (\<Sum>j = 0 ..< 2208. frame ! j * frame ! j)"
    by (rule member_le_sum[where f = "\<lambda>j. frame ! j * frame ! j"]) simp_all
  moreover have "0 < frame ! 1 * frame ! 1" using f1_pos by simp
  ultimately show ?thesis unfolding xp_def by linarith
qed

lemma sum_list_map_zero: "(\<forall>a \<in> set as. f a = (0::real)) \<Longrightarrow> sum_list (map f as) = 0"
  by (induction as) auto

text \<open>A frame of zeros has zero energy and yields no estimate.\<close>

lemma analyze_frame_silent:
  assumes "\<forall>v \<in> set xp. v = 0" "1 \<le> frame_size" "0 \<le> s" "s + frame_size \<le> int (length xp)"
  shows "analyze_frame xp sr frame_size lmin lmax s = Inr None"
proof -
  define windowed where
    "windowed = map2 (*) (py_slice xp s (s + frame_size)) (np_hanning (nat frame_size))"
  define frame where "frame = map (\<lambda>v. v - np_mean windowed) windowed"
  have "length (py_slice xp s (s + frame_size)) = nat frame_size"
    using length_py_slice_inside[of s "s + frame_size" xp] assms(2-4) by simp
  then have len_w: "length windowed = nat frame_size"
    by (simp add: windowed_def length_np_hanning)
  have "set (py_slice xp s (s + frame_size)) \<subseteq> set xp"
    unfolding py_slice_def Let_def
    by (meson set_take_subset set_drop_subset subset_trans)
  then have "\<forall>v \<in> set (py_slice xp s (s + frame_size)). v = 0"
    using assms(1) by blast
  then have "\<forall>v \<in> set windowed. v = 0"
    unfolding windowed_def by (auto dest: set_zip_leftD)
  then have w0: "windowed = replicate (nat frame_size) 0"
    using len_w by (metis replicate_eqI)
  have m0: "np_mean windowed = 0"
    by (simp add: np_mean_def w0 sum_list_replicate)
  have f0: "frame = replicate (nat frame_size) 0"
    unfolding frame_def m0 by (simp add: w0)
  have pos: "0 < nat frame_size" using assms(2) by simp
  have "autocorr_at frame 0 = 0"
    unfolding autocorr_at_def by (rule sum_list_map_zero) (simp add: f0)
  moreover have "autocorr frame = autocorr_at frame 0 # map (autocorr_at frame) [1 ..< nat frame_size]"
    using pos by (simp add: autocorr_def f0 upt_conv_Cons)
  ultimately have ac: "autocorr frame = 0 # map (autocorr_at frame) [1 ..< nat frame_size]"
    by simp
  show ?thesis
    unfolding analyze_frame_def Let_def windowed_def[symmetric]
    unfolding frame_def[symmetric]
    unfolding ac
    by simp
qed

text \<open>
  Claim C6. With non-zero frequency bounds the lag bounds are computed without error.
  If \<open>lmax \<le> lmin\<close> the tracker raises the error that carries \<open>lmin\<close>, \<open>lmax\<close>,
  \<open>frame_size\<close>, the sample rate and the frequency bounds. Otherwise the frame loop
  itself never raises, and the tracker raises the second error when no frame yielded
  an estimate and returns the non-empty estimates otherwise, so the first error is
  raised exactly on degenerate bounds and an empty result is never returned. An input
  shorter than \<open>frame_size\<close> is extended by zeros to \<open>frame_size\<close> samples, one frame at
  offset 0 is analysed, and the note of the padding is recorded; such an input yields
  no estimate only when the energy of that frame is not positive.
\<close>

theorem pitch_tracker_failures:
  assumes "min_hz \<noteq> 0" "max_hz \<noteq> 0"
  shows "\<exists>frame_size hop lmin lmax.
           lag_bounds sr min_hz max_hz = Inr (frame_size, hop, lmin, lmax)
           \<and> (if lmax \<le> lmin then
                estimate_f0_acf_with_meta x sr min_hz max_hz ctx =
                  Inl (InvalidLagWindow ctx lmin lmax frame_size sr min_hz max_hz)
              else
                (\<exists>xp notes lags f0s confs.
                   padded_input x frame_size = (xp, notes)
                   \<and> frame_loop xp sr frame_size lmin lmax (frame_starts xp frame_size hop)
                        ([], [], []) = Inr (lags, f0s, confs)
                   \<and> (if f0s = [] then
                        estimate_f0_acf_with_meta x sr min_hz max_hz ctx =
                          Inl (UnableToEstimateF0 ctx)
                      else
                        (\<exists>meta. estimate_f0_acf_with_meta x sr min_hz max_hz ctx =
                                  Inr (f0s, confs, meta)
                                \<and> meta_notes meta = notes))
                   \<and> (int (length x) < frame_size \<longrightarrow>
                        xp = x @ replicate (nat (frame_size - int (length x))) 0
                        \<and> int (length xp) = frame_size
                        \<and> frame_starts xp frame_size hop = [0]
                        \<and> notes = [''short audio; frame was zero-padded for f0 tracking'']
                        \<and> (f0s = []) = (frame_energy xp frame_size 0 \<le> 0))))"
proof -
  define frame_size where "frame_size = max 1024 (py_int (46 / 1000 * of_int sr))"
  define hop where "hop = max 256 (frame_size div 4)"
  define lmin where "lmin = max 1 \<lfloor>of_int sr / max_hz\<rfloor>"
  define lmax where "lmax = min (frame_size - 1) \<lceil>of_int sr / min_hz\<rceil>"
  have lb: "lag_bounds sr min_hz max_hz = Inr (frame_size, hop, lmin, lmax)"
    unfolding frame_size_def hop_def lmin_def lmax_def
    by (rule lag_bounds_value[OF assms])
  have hop: "0 < hop" by (simp add: hop_def)
  have lmin: "1 \<le> lmin" by (simp add: lmin_def)
  have lmax: "lmax \<le> frame_size - 1" by (simp add: lmax_def)
  have fs: "1024 \<le> frame_size" by (simp add: frame_size_def)
  show ?thesis
  proof (cases "lmax \<le> lmin")
    case True
    then show ?thesis
      using lb by (simp add: estimate_f0_acf_with_meta_def)
  next
    case False
    then have lt: "lmin < lmax" by simp
    obtain xp nts where pi: "padded_input x frame_size = (xp, nts)"
      by (metis surj_pair)
    have len: "frame_size \<le> int (length xp)"
      using padded_input_length[of frame_size x] pi by simp
    have inside: "\<forall>s \<in> set (frame_starts xp frame_size hop).
                    0 \<le> s \<and> s + frame_size \<le> int (length xp)"
      using frame_starts_inside[OF hop] by blast
    from frame_loop_ok[OF lmin lt lmax inside, of sr "([], [], [])"]
    obtain lags f0s confs where
      fl: "frame_loop xp sr frame_size lmin lmax (frame_starts xp frame_size hop) ([], [], [])
             = Inr (lags, f0s, confs)"
      by blast
    have res: "if f0s = [] then
                 estimate_f0_acf_with_meta x sr min_hz max_hz ctx = Inl (UnableToEstimateF0 ctx)
               else
                 (\<exists>meta. estimate_f0_acf_with_meta x sr min_hz max_hz ctx = Inr (f0s, confs, meta)
                         \<and> meta_notes meta = nts)"
      using lb False pi fl by (simp add: estimate_f0_acf_with_meta_def)
    have short: "xp = x @ replicate (nat (frame_size - int (length x))) 0
                 \<and> int (length xp) = frame_size
                 \<and> frame_starts xp frame_size hop = [0]
                 \<and> nts = [''short audio; frame was zero-padded for f0 tracking'']
                 \<and> (f0s = []) = (frame_energy xp frame_size 0 \<le> 0)"
      if sh: "int (length x) < frame_size"
    proof -
      from pi sh have xp: "xp = x @ replicate (nat (frame_size - int (length x))) 0"
        and nt: "nts = [''short audio; frame was zero-padded for f0 tracking'']"
        by (simp_all add: padded_input_def np_pad_right_def)
      have l: "int (length xp) = frame_size" using sh by (simp add: xp)
      note st = frame_starts_short[OF hop l]
      have "(0::int) \<le> 0" "0 + frame_size \<le> int (length xp)" using l by simp_all
      from analyze_frame_ok[OF lmin lt lmax this, of sr] obtain r where
        r: "analyze_frame xp sr frame_size lmin lmax 0 = Inr r"
           "(r = None) = (frame_energy xp frame_size 0 \<le> 0)"
        by blast
      have "(f0s = []) = (r = None)"
        using fl r(1) unfolding st by (cases r) auto
      with r(2) st xp nt l show ?thesis by simp
    qed
    show ?thesis
      using lb False pi fl res short by auto
  qed
qed

text \<open>
  Three runs with the default bounds of 40 and 2000 Hz: at a sample rate of 8 Hz the
  lag bounds are both 1 and the first error is raised; three zero samples at 48 kHz
  are padded to one frame of 2208 samples, which yields no estimate, and the second
  error is raised; the two samples 0 and 1 at 48 kHz are padded to one frame, which
  yields an estimate, and the tracker returns it with the note of the padding.
\<close>

theorem pitch_tracker_failures_witness:
  "estimate_f0_acf_with_meta [1, 0, 1] 8 40 2000 None = Inl (InvalidLagWindow None 1 1 1024 8 40 2000)
   \<and> estimate_f0_acf_with_meta [0, 0, 0] 48000 40 2000 (Some ''bar'') =
       Inl (UnableToEstimateF0 (Some ''bar''))
   \<and> (\<exists>f0s confs meta.
         estimate_f0_acf_with_meta [0, 1] 48000 40 2000 None = Inr (f0s, confs, meta)
         \<and> f0s \<noteq> []
         \<and> meta_notes meta = [''short audio; frame was zero-padded for f0 tracking''])"
proof -
  have nz: "(40::real) \<noteq> 0" "(2000::real) \<noteq> 0" by simp_all
  have c: "\<lceil>1 / 5 :: real\<rceil> = 1"
    by (simp add: ceiling_eq_iff)
  have lb1: "lag_bounds 8 40 2000 = Inr (1024, 256, 1, 1)"
    by (simp add: lag_bounds_def py_div_def py_int_def Let_def c)
  have lb2: "lag_bounds 48000 40 2000 = Inr (2208, 552, 24, 1200)"
    by (simp add: lag_bounds_def py_div_def py_int_def Let_def)
  have a: "estimate_f0_acf_with_meta [1, 0, 1] 8 40 2000 None
             = Inl (InvalidLagWindow None 1 1 1024 8 40 2000)"
    using pitch_tracker_failures[OF nz, of 8 "[1, 0, 1]" None] lb1 by simp
  from pitch_tracker_failures[OF nz, of 48000 "[0, 0, 0]" "Some ''bar''"] lb2
  obtain xp nts lags f0s confs where
    r: "padded_input [0, 0, 0] 2208 = (xp, nts)"
       "frame_loop xp 48000 2208 24 1200 (frame_starts xp 2208 552) ([], [], [])
          = Inr (lags, f0s, confs)"
       "if f0s = [] then
          estimate_f0_acf_with_meta [0, 0, 0] 48000 40 2000 (Some ''bar'')
            = Inl (UnableToEstimateF0 (Some ''bar''))
        else
          (\<exists>meta. estimate_f0_acf_with_meta [0, 0, 0] 48000 40 2000 (Some ''bar'')
                    = Inr (f0s, confs, meta) \<and> meta_notes meta = nts)"
       "xp = [0, 0, 0] @ replicate (nat (2208 - int (length [0, 0, 0 :: real]))) 0"
       "int (length xp) = 2208"
       "frame_starts xp 2208 552 = [0]"
    by auto
  have zeros: "\<forall>v \<in> set xp. v = 0" by (auto simp: r(4))
  have "analyze_frame xp 48000 2208 24 1200 0 = Inr None"
    by (rule analyze_frame_silent[OF zeros]) (simp_all add: r(5))
  with r(2) have "f0s = []" by (simp add: r(6))
  with r(3) have b: "estimate_f0_acf_with_meta [0, 0, 0] 48000 40 2000 (Some ''bar'')
                     = Inl (UnableToEstimateF0 (Some ''bar''))"
    by simp
  from pitch_tracker_failures[OF nz, of 48000 "[0, 1]" None] lb2
  obtain yp nts2 lags2 f0s2 confs2 where
    t: "if f0s2 = [] then
          estimate_f0_acf_with_meta [0, 1] 48000 40 2000 None = Inl (UnableToEstimateF0 None)
        else
          (\<exists>meta. estimate_f0_acf_with_meta [0, 1] 48000 40 2000 None
                    = Inr (f0s2, confs2, meta) \<and> meta_notes meta = nts2)"
       "yp = [0, 1] @ replicate (nat (2208 - int (length [0, 1 :: real]))) 0"
       "nts2 = [''short audio; frame was zero-padded for f0 tracking'']"
       "(f0s2 = []) = (frame_energy yp 2208 0 \<le> 0)"
    by auto
  have "yp = [0, 1] @ replicate 2206 0" by (simp add: t(2))
  with two_sample_energy t(4) have "f0s2 \<noteq> []" by simp
  with t(1,3) have c: "\<exists>f0s confs meta.
         estimate_f0_acf_with_meta [0, 1] 48000 40 2000 None = Inr (f0s, confs, meta)
         \<and> f0s \<noteq> []
         \<and> meta_notes meta = [''short audio; frame was zero-padded for f0 tracking'']"
    by auto
  from a b c show ?thesis by blast
qed

section \<open>Verification: partial analyzer\<close>

lemma np_argsort_set: "set (np_argsort vs) = {0 ..< length vs}"
  by (simp add: np_argsort_def)

lemma np_argsort_length: "length (np_argsort vs) = length vs"
  by (simp add: np_argsort_def)

lemma np_argsort_distinct: "distinct (np_argsort vs)"
  by (simp add: np_argsort_def)

lemma np_argsort_sorted: "sorted (map (\<lambda>i. vs ! i) (np_argsort vs))"
  unfolding np_argsort_def by (rule sorted_sort_key)

text \<open>The indices \<^verbatim>\<open>order\<close>: descending in the sorted values, at most \<open>MAX_PEAKS\<close>.\<close>

lemma descending_order:
  "sorted_wrt (\<lambda>a b. vs ! b \<le> vs ! a) (take m (rev (np_argsort vs)))"
proof -
  have "sorted_wrt (\<lambda>a b. vs ! a \<le> vs ! b) (np_argsort vs)"
    using np_argsort_sorted[of vs] by (simp add: sorted_map)
  then have "sorted_wrt (\<lambda>a b. vs ! b \<le> vs ! a) (rev (np_argsort vs))"
    by (simp add: sorted_wrt_rev)
  then show ?thesis by (rule sorted_wrt_take)
qed

lemma order_in_range: "k \<in> set (take m (rev (np_argsort vs))) \<Longrightarrow> k < length vs"
  using np_argsort_set[of vs] by (auto dest: in_set_takeD)

lemma make_entry_fields:
  "rel_amp_db (make_entry fv md pidx proms am f k) = md ! (pidx ! k) - am"
  "hz (make_entry fv md pidx proms am f k) = Some (fv ! (pidx ! k))"
  "peak_confidence (make_entry fv md pidx proms am f k) =
     np_clip ((if k < length proms then proms ! k else 1) / (PROMINENCE_DB * 2)) 0 1"
  by (simp_all add: make_entry_def Let_def)

lemma peaks_from_spectrum_lists:
  assumes "peaks_from_spectrum find_peaks mag_valid freqs_valid f = Inr (entries, summary)"
  shows "length entries \<le> MAX_PEAKS \<and> sorted_wrt (\<ge>) (map rel_amp_db entries)
         \<and> summary = take SUMMARY_PEAKS entries"
proof (cases "mag_valid = []")
  case True
  with assms show ?thesis by (simp add: peaks_from_spectrum_def)
next
  case False
  define mag_db where "mag_db = map (\<lambda>m. 20 * log 10 (max m e12)) mag_valid"
  obtain peaks_idx prominences where
    cp: "choose_peaks mag_valid (find_peaks mag_db PROMINENCE_DB) = (peaks_idx, prominences)"
    by (metis surj_pair)
  define vals where "vals = map (\<lambda>i. mag_db ! i) peaks_idx"
  define order where "order = take MAX_PEAKS (rev (np_argsort vals))"
  from assms False cp have
    entries: "entries = map (make_entry freqs_valid mag_db peaks_idx prominences
                              (np_max mag_db) f) order"
    and summary: "summary = take SUMMARY_PEAKS entries"
    by (auto simp: peaks_from_spectrum_def Let_def mag_db_def[symmetric] vals_def[symmetric]
        order_def[symmetric] split: if_splits)
  have len: "length entries \<le> MAX_PEAKS"
    by (simp add: entries order_def)
  have desc: "sorted_wrt (\<lambda>a b. vals ! b \<le> vals ! a) order"
    unfolding order_def by (rule descending_order)
  have "sorted_wrt (\<lambda>a b. mag_db ! (peaks_idx ! b) - np_max mag_db
                            \<le> mag_db ! (peaks_idx ! a) - np_max mag_db) order"
  proof (rule sorted_wrt_mono_rel[OF _ desc])
    fix a b assume "a \<in> set order" "b \<in> set order" "vals ! b \<le> vals ! a"
    moreover from this have "a < length peaks_idx" "b < length peaks_idx"
      using order_in_range[of _ MAX_PEAKS vals] by (simp_all add: order_def vals_def)
    ultimately show "mag_db ! (peaks_idx ! b) - np_max mag_db
                     \<le> mag_db ! (peaks_idx ! a) - np_max mag_db"
      by (simp add: vals_def)
  qed
  then have "sorted_wrt (\<ge>) (map rel_amp_db entries)"
    by (simp add: entries sorted_wrt_map make_entry_fields comp_def)
  with len summary show ?thesis by simp
qed

lemma fft_length_pos: "0 < fft_length n"
  by (simp add: fft_length_def MAX_FFT_def)

lemma length_windowed_input: "length (windowed_input x) = fft_length (length x)"
  by (simp add: windowed_input_def Let_def np_pad_right_def length_np_hanning)

lemma rfftfreq_value:
  assumes "sr \<noteq> 0" "0 < n"
  shows "\<exists>freqs. rfftfreq n sr = Inr freqs \<and> length freqs = n div 2 + 1"
  using assms by (simp add: rfftfreq_def py_div_def)

text \<open>
  Claim C7. For a non-zero sample rate, when the spectrum has the \<open>n div 2 + 1\<close>
  bins that \<^verbatim>\<open>rfft\<close> returns and the indices \<^verbatim>\<open>find_peaks\<close> returns are within the
  array it was given, the partial analyzer returns; its full peak list has at most 60
  entries, is in descending order of magnitude (the entries record it as
  \<open>rel_amp_db\<close>, the magnitude in dB minus the maximum), and the summary is the first 12
  entries of the full list.
\<close>

theorem partial_analyzer_peak_lists:
  assumes "sr \<noteq> 0"
    and "length (rfft_abs (windowed_input x)) = length (windowed_input x) div 2 + 1"
    and "\<forall>db. list_all (\<lambda>i. i < length db) (fst (find_peaks db PROMINENCE_DB))"
  shows "\<exists>entries summary.
           analyze_partials rfft_abs find_peaks x sr f = Inr (entries, summary)
           \<and> length entries \<le> 60
           \<and> sorted_wrt (\<ge>) (map rel_amp_db entries)
           \<and> summary = take 12 entries"
proof -
  have "0 < length (windowed_input x)"
    by (simp add: length_windowed_input fft_length_pos)
  from rfftfreq_value[OF assms(1) this] obtain freqs where
    fr: "rfftfreq (length (windowed_input x)) sr = Inr freqs"
        "length freqs = length (windowed_input x) div 2 + 1"
    by blast
  define valid where "valid = map (\<lambda>fq. 20 \<le> fq) freqs"
  define mag_valid where "mag_valid = np_mask (rfft_abs (windowed_input x)) valid"
  define freqs_valid where "freqs_valid = np_mask freqs valid"
  have vb: "valid_bins rfft_abs x sr = Inr (mag_valid, freqs_valid)"
    using fr assms(2)
    by (simp add: valid_bins_def Let_def valid_def mag_valid_def freqs_valid_def)
  have "\<exists>entries summary.
          peaks_from_spectrum find_peaks mag_valid freqs_valid f = Inr (entries, summary)"
  proof (cases "mag_valid = []")
    case True
    then show ?thesis by (simp add: peaks_from_spectrum_def)
  next
    case False
    define mag_db where "mag_db = map (\<lambda>m. 20 * log 10 (max m e12)) mag_valid"
    obtain peaks_idx prominences where
      cp: "choose_peaks mag_valid (find_peaks mag_db PROMINENCE_DB) = (peaks_idx, prominences)"
      by (metis surj_pair)
    have "list_all (\<lambda>i. i < length mag_db) peaks_idx"
    proof (cases "fst (find_peaks mag_db PROMINENCE_DB) = []")
      case True
      then have "peaks_idx =
          py_last_n (min MAX_PEAKS (length mag_valid)) (np_argsort mag_valid)"
        using cp by (auto simp: choose_peaks_def Let_def split: prod.splits)
      then have "set peaks_idx \<subseteq> {0 ..< length mag_valid}"
        using np_argsort_set[of mag_valid] set_drop_subset
        by (fastforce simp: py_last_n_def)
      then show ?thesis
        by (auto simp: list_all_iff mag_db_def)
    next
      case False
      then have "peaks_idx = fst (find_peaks mag_db PROMINENCE_DB)"
        using cp by (auto simp: choose_peaks_def split: prod.splits)
      with assms(3) show ?thesis by simp
    qed
    then show ?thesis
      using False cp
      by (simp add: peaks_from_spectrum_def Let_def mag_db_def[symmetric])
  qed
  then obtain entries summary where
    ps: "peaks_from_spectrum find_peaks mag_valid freqs_valid f = Inr (entries, summary)"
    by blast
  from peaks_from_spectrum_lists[OF ps] ps vb show ?thesis
    by (simp add: analyze_partials_def MAX_PEAKS_def SUMMARY_PEAKS_def)
qed

text \<open>
  Two stand-ins for the library calls, exact on the inputs they are used with: the
  magnitudes of the discrete Fourier transform of two samples, and the answer of
  \<^verbatim>\<open>find_peaks\<close> on an array without an interior local maximum.
\<close>

definition rfft_abs_pair :: "real list \<Rightarrow> real list" where
  "rfft_abs_pair w = (case w of [a, b] \<Rightarrow> [\<bar>a + b\<bar>, \<bar>a - b\<bar>] | _ \<Rightarrow> [])"

definition find_no_peaks :: "real list \<Rightarrow> real \<Rightarrow> nat list \<times> real list" where
  "find_no_peaks mag_db prominence = ([], [])"

lemma log10_e12: "log 10 e12 = - 12"
proof -
  have "log 10 ((10::real) ^ 12) = 12"
    by (subst log_nat_power) simp_all
  moreover have "log 10 (1 / 10 ^ 12) = - log 10 ((10::real) ^ 12)"
    by (simp add: log_divide)
  ultimately show ?thesis
    unfolding e12_def by simp
qed

lemma windowed_pair: "windowed_input [a, b] = [0, 0]"
proof -
  have len: "length [a, b] = 2" by simp
  have f: "fft_length 2 = 2"
    by (simp add: fft_length_def MAX_FFT_def)
  have h: "np_hanning (Suc (Suc 0)) = [0, 0]"
    by (simp add: np_hanning_def upt_rec)
  show ?thesis
    unfolding windowed_input_def Let_def len f by (simp add: h)
qed

lemma valid_bins_pair: "valid_bins rfft_abs_pair [a, b] 48000 = Inr ([0], [24000])"
proof -
  have fr: "rfftfreq (Suc (Suc 0)) 48000 = Inr [0, 24000]"
    by (simp add: rfftfreq_def py_div_def upt_rec)
  show ?thesis
    unfolding valid_bins_def Let_def windowed_pair
    by (simp add: fr rfft_abs_pair_def np_mask_def)
qed

lemma analyze_pair:
  "analyze_partials rfft_abs_pair find_no_peaks [1, 1] 48000 100 =
     Inr ([\<lparr>hz = Some 24000, rel_amp_db = 0, peak_confidence = 1 / 30,
            harmonic_index_guess = Some 240\<rparr>],
          [\<lparr>hz = Some 24000, rel_amp_db = 0, peak_confidence = 1 / 30,
            harmonic_index_guess = Some 240\<rparr>])"
  unfolding analyze_partials_def valid_bins_pair
  by (simp add: peaks_from_spectrum_def find_no_peaks_def choose_peaks_def py_last_n_def
      MAX_PEAKS_def np_argsort_def Let_def np_max_def make_entry_def SUMMARY_PEAKS_def
      PROMINENCE_DB_def np_clip_def py_round_def e6_def log10_e12)

text \<open>
  A second pair of functions for the two parameters, for a run in which
  \<^verbatim>\<open>find_peaks\<close> returns more than 60 peaks. The spectrum is a comb over the bins
  \<open>k = 0, ..., n div 2\<close>: magnitude \<open>10 ^ ((k div 2) mod 64)\<close> at an even bin and 1 at
  an odd bin, so that the even bins 2, 4, ..., 126 stand out by 20, 40, ..., 1260 dB.
  \<open>find_comb_peaks\<close> returns the interior bins that are strictly above both
  neighbours by at least the prominence asked for, with the height above the higher
  neighbour as prominence; this is the answer of \<^verbatim>\<open>find_peaks\<close> on an array in which
  all the bins between two peaks are at one level, as in the comb.
\<close>

definition comb_magnitude :: "nat \<Rightarrow> real" where
  "comb_magnitude k = (if even k then 10 ^ ((k div 2) mod 64) else 1)"

definition comb_spectrum :: "real list \<Rightarrow> real list" where
  "comb_spectrum w = map comb_magnitude [0 ..< length w div 2 + 1]"

definition find_comb_peaks :: "real list \<Rightarrow> real \<Rightarrow> nat list \<times> real list" where
  "find_comb_peaks db prominence =
     (let height = (\<lambda>i. db ! i - max (db ! (i - 1)) (db ! (i + 1)));
          idx = filter (\<lambda>i. 0 < height i \<and> prominence \<le> height i) [1 ..< length db - 1]
      in (idx, map height idx))"

text \<open>The comb in dB, and the height of a bin of the valid part above its neighbours.\<close>

definition comb_db :: "nat \<Rightarrow> real" where
  "comb_db k = (if even k then 20 * real ((k div 2) mod 64) else 0)"

definition comb_height :: "nat \<Rightarrow> real" where
  "comb_height i = comb_db (Suc i) - max (comb_db i) (comb_db (Suc (Suc i)))"

text \<open>
  The 60 entries of the run below: the peaks at the bins \<open>2 * 63, 2 * 62, ..., 2 * 4\<close>, of
  frequencies \<open>375 * 63, ..., 375 * 4\<close> Hz, each 20 dB below the one before.
\<close>

definition comb_entries :: "peak list" where
  "comb_entries =
     map (\<lambda>i. \<lparr>hz = Some (375 * real (63 - i)), rel_amp_db = - 20 * real i,
               peak_confidence = 1, harmonic_index_guess = Some (int (63 - i))\<rparr>)
       [0 ..< 60]"

lemma find_comb_peaks_in_range:
  "list_all (\<lambda>i. i < length db) (fst (find_comb_peaks db p))"
  by (auto simp: find_comb_peaks_def Let_def list_all_iff)

lemma comb_db_value: "20 * log 10 (max (comb_magnitude k) e12) = comb_db k"
proof (cases "even k")
  case True
  let ?n = "(k div 2) mod 64"
  have "e12 \<le> 1" by (simp add: e12_def)
  also have "(1::real) \<le> 10 ^ ?n" by simp
  finally have "max ((10::real) ^ ?n) e12 = 10 ^ ?n" by simp
  moreover have "log 10 ((10::real) ^ ?n) = real ?n"
    by (subst log_nat_power) simp_all
  ultimately show ?thesis using True by (simp add: comb_magnitude_def comb_db_def)
next
  case False
  have "max 1 e12 = (1::real)" by (simp add: e12_def)
  with False show ?thesis by (simp add: comb_magnitude_def comb_db_def)
qed

lemma fft_length_256: "fft_length 256 = 256"
proof -
  have "log 2 (real (max 2 256)) = log 2 (2 ^ 8)" by simp
  also have "\<dots> = 8" by (subst log_nat_power) simp_all
  finally have "\<lceil>log 2 (real (max 2 256))\<rceil> = 8" by simp
  then show ?thesis by (simp add: fft_length_def MAX_FFT_def)
qed

lemma np_mask_map: "np_mask (map g ks) (map Q ks) = map g (filter Q ks)"
  by (induction ks) (simp_all add: np_mask_def)

lemma valid_from_one: "filter (\<lambda>k. 20 \<le> real k * (375 / 2)) [0 ..< 129] = [1 ..< 129]"
proof -
  have "[0 ..< 129] = 0 # [1 ..< 129]" by (simp add: upt_conv_Cons)
  moreover have "filter (\<lambda>k. 20 \<le> real k * (375 / 2)) [1 ..< 129] = [1 ..< 129]"
    by (rule filter_True) auto
  ultimately show ?thesis by simp
qed

text \<open>
  At 48 kHz a signal of 256 samples has the 129 bins \<open>k * 187.5\<close> Hz; all but the bin
  0 are at or above 20 Hz.
\<close>

lemma valid_bins_comb:
  "valid_bins comb_spectrum (replicate 256 1) 48000 =
     Inr (map comb_magnitude [1 ..< 129], map (\<lambda>k. real k * (375 / 2)) [1 ..< 129])"
proof -
  have len: "length (windowed_input (replicate 256 1)) = 256"
    by (simp add: length_windowed_input fft_length_256)
  have fr: "rfftfreq 256 48000 = Inr (map (\<lambda>k. real k * (375 / 2)) [0 ..< 129])"
    by (simp add: rfftfreq_def py_div_def)
  have mag: "comb_spectrum (windowed_input (replicate 256 1)) = map comb_magnitude [0 ..< 129]"
    by (simp add: comb_spectrum_def len)
  have valid: "map (\<lambda>f. 20 \<le> f) (map (\<lambda>k. real k * (375 / 2)) [0 ..< 129])
               = map (\<lambda>k. 20 \<le> real k * (375 / 2)) [0 ..< 129]"
    by simp
  have m1: "np_mask (map comb_magnitude [0 ..< 129])
              (map (\<lambda>k. 20 \<le> real k * (375 / 2)) [0 ..< 129]) = map comb_magnitude [1 ..< 129]"
    unfolding np_mask_map valid_from_one ..
  have m2: "np_mask (map (\<lambda>k. real k * (375 / 2)) [0 ..< 129])
              (map (\<lambda>k. 20 \<le> real k * (375 / 2)) [0 ..< 129])
            = map (\<lambda>k. real k * (375 / 2)) [1 ..< 129]"
    unfolding np_mask_map valid_from_one ..
  show ?thesis
    unfolding valid_bins_def Let_def len fr mag
    by (simp only: sum.case valid m1 m2 length_map length_upt) simp
qed

lemma comb_db_spectrum:
  "map (\<lambda>m. 20 * log 10 (max m e12)) (map comb_magnitude [1 ..< 129]) = map comb_db [1 ..< 129]"
  by (simp only: map_map comp_def comb_db_value)

lemma comb_db_nth: "j < 128 \<Longrightarrow> map comb_db [1 ..< 129] ! j = comb_db (Suc j)"
  by (simp add: nth_map_upt)

lemma comb_height_nth:
  assumes "i \<in> set [1 ..< 127]"
  shows "map comb_db [1 ..< 129] ! i
           - max (map comb_db [1 ..< 129] ! (i - 1)) (map comb_db [1 ..< 129] ! (i + 1))
         = comb_height i"
proof -
  from assms have "i < 128" "i - 1 < 128" "i + 1 < 128" "Suc (i - 1) = i" by auto
  then show ?thesis
    by (simp add: comb_db_nth comb_height_def)
qed

lemma comb_height_odd: "odd i \<Longrightarrow> comb_height i = 20 * real ((Suc i div 2) mod 64)"
  by (simp add: comb_height_def comb_db_def)

lemma comb_height_even: "even i \<Longrightarrow> comb_height i \<le> 0"
  by (simp add: comb_height_def comb_db_def)

lemma comb_peak_iff:
  assumes "i \<in> set [1 ..< 127]"
  shows "(0 < comb_height i \<and> 15 \<le> comb_height i) = odd i"
proof (cases "odd i")
  case True
  with assms have "1 \<le> Suc i div 2" "Suc i div 2 < 64" by (auto elim!: oddE)
  then have "1 \<le> real ((Suc i div 2) mod 64)" by simp
  then show ?thesis using True by (simp add: comb_height_odd)
next
  case False
  then have "comb_height i \<le> 0" by (simp add: comb_height_even)
  with False show ?thesis by auto
qed

lemma odd_indices: "filter odd [1 ..< Suc (2 * n)] = map (\<lambda>m. 2 * m - 1) [1 ..< Suc n]"
  by (induction n) simp_all

lemma comb_peak_heights:
  "map comb_height (map (\<lambda>m. 2 * m - 1) [1 ..< 64]) = map (\<lambda>m. 20 * real m) [1 ..< 64]"
proof -
  have "comb_height (2 * m - 1) = 20 * real m" if "m \<in> set [1 ..< 64]" for m
  proof -
    from that have "odd (2 * m - 1)" "Suc (2 * m - 1) div 2 = m" "m mod 64 = m" by auto
    then show ?thesis by (simp add: comb_height_odd)
  qed
  then show ?thesis by (simp only: map_map comp_def cong: map_cong)
qed

text \<open>
  On the comb \<open>find_comb_peaks\<close> returns the 63 odd indices \<open>1, 3, ..., 125\<close> of the
  valid part (the bins 2, 4, ..., 126), with the prominences 20, 40, ..., 1260.
\<close>

lemma comb_peaks:
  "find_comb_peaks (map comb_db [1 ..< 129]) 15 =
     (map (\<lambda>m. 2 * m - 1) [1 ..< 64], map (\<lambda>m. 20 * real m) [1 ..< 64])"
proof -
  let ?db = "map comb_db [1 ..< 129]"
  let ?h = "\<lambda>i. ?db ! i - max (?db ! (i - 1)) (?db ! (i + 1))"
  have odd63: "filter odd [1 ..< 127] = map (\<lambda>m. 2 * m - 1) [1 ..< (64::nat)]"
    using odd_indices[of 63] by simp
  have idx: "filter (\<lambda>i. 0 < ?h i \<and> 15 \<le> ?h i) [1 ..< 127]
             = map (\<lambda>m. 2 * m - 1) [1 ..< 64]"
  proof -
    have "filter (\<lambda>i. 0 < ?h i \<and> 15 \<le> ?h i) [1 ..< 127] = filter odd [1 ..< 127]"
      by (rule filter_cong[OF refl]) (simp only: comb_height_nth comb_peak_iff)
    then show ?thesis by (simp only: odd63)
  qed
  have sub: "set (map (\<lambda>m. 2 * m - 1) [1 ..< 64]) \<subseteq> set [1 ..< 127]"
    by auto
  have hts: "map ?h (map (\<lambda>m. 2 * m - 1) [1 ..< 64])
             = map comb_height (map (\<lambda>m. 2 * m - 1) [1 ..< 64])"
    by (rule map_cong[OF refl]) (use sub comb_height_nth in blast)
  have len: "length ?db - 1 = 127" by simp
  show ?thesis
    unfolding find_comb_peaks_def Let_def len idx hts comb_peak_heights ..
qed

lemma comb_peak_values:
  "map (\<lambda>i. map comb_db [1 ..< 129] ! i) (map (\<lambda>m. 2 * m - 1) [1 ..< 64])
   = map (\<lambda>m. 20 * real m) [1 ..< 64]"
proof -
  have "map comb_db [1 ..< 129] ! (2 * m - 1) = 20 * real m" if "m \<in> set [1 ..< 64]" for m
  proof -
    from that have "2 * m - 1 < 128" "Suc (2 * m - 1) = 2 * m" "m mod 64 = m" by auto
    then show ?thesis by (simp add: comb_db_nth comb_db_def)
  qed
  then show ?thesis by (simp only: map_map comp_def cong: map_cong)
qed

text \<open>
  The peaks come in ascending magnitude, so the ascending sort leaves their indices in
  place; the reversal and the cut keep the 60 strongest, from the last peak down.
\<close>

lemma comb_argsort: "np_argsort (map (\<lambda>m. 20 * real m) [1 ..< 64]) = [0 ..< 63]"
proof -
  let ?vals = "map (\<lambda>m. 20 * real m) [1 ..< 64]"
  have "map (\<lambda>i. ?vals ! i) [0 ..< length ?vals] = ?vals"
    by (rule map_nth)
  moreover have "sorted ?vals"
    by (simp add: sorted_map sorted_wrt_iff_nth_less)
  ultimately have "sorted (map (\<lambda>i. ?vals ! i) [0 ..< length ?vals])" by simp
  then have "sort_key (\<lambda>i. ?vals ! i) [0 ..< length ?vals] = [0 ..< length ?vals]"
    by (rule sort_key_id_if_sorted)
  then show ?thesis by (simp add: np_argsort_def)
qed

lemma comb_order: "take 60 (rev [0 ..< 63]) = map (\<lambda>i. 62 - i) [0 ..< (60::nat)]"
  by (simp add: upt_rec)

lemma comb_amp_max: "np_max (map comb_db [1 ..< 129]) = 1260"
  by (simp add: np_max_def upt_rec comb_db_def)

lemma py_round_nat: "py_round (real n) = int n"
  by (simp add: py_round_def Let_def)

lemma comb_entry:
  assumes "i < 60"
  shows "make_entry (map (\<lambda>k. real k * (375 / 2)) [1 ..< 129]) (map comb_db [1 ..< 129])
           (map (\<lambda>m. 2 * m - 1) [1 ..< 64]) (map (\<lambda>m. 20 * real m) [1 ..< 64]) 1260 375
           (62 - i)
         = \<lparr>hz = Some (375 * real (63 - i)), rel_amp_db = - 20 * real i,
            peak_confidence = 1, harmonic_index_guess = Some (int (63 - i))\<rparr>"
proof -
  define m where "m = 63 - i"
  have m: "1 + (62 - i) = m" "4 \<le> m" "m < 64" "real m = 63 - real i"
    using assms by (auto simp: m_def)
  have k63: "62 - i < 64 - 1" using assms by simp
  have idx: "map (\<lambda>m. 2 * m - 1) [1 ..< 64] ! (62 - i) = 2 * m - 1"
    unfolding nth_map_upt[OF k63] m(1) ..
  have prom: "map (\<lambda>m. 20 * real m) [1 ..< 64] ! (62 - i) = 20 * real m"
    unfolding nth_map_upt[OF k63] m(1) ..
  have lt: "62 - i < length (map (\<lambda>m. 20 * real m) [1 ..< 64])"
    using assms by simp
  have i128: "2 * m - 1 < 128" "1 + (2 * m - 1) = 2 * m" "Suc (2 * m - 1) = 2 * m"
    using m by auto
  have k128: "2 * m - 1 < 129 - 1" using m by simp
  have "map (\<lambda>k. real k * (375 / 2)) [1 ..< 129] ! (2 * m - 1) = real (2 * m) * (375 / 2)"
    unfolding nth_map_upt[OF k128] i128(2) ..
  then have fq: "map (\<lambda>k. real k * (375 / 2)) [1 ..< 129] ! (2 * m - 1) = 375 * real m"
    by simp
  have db: "map comb_db [1 ..< 129] ! (2 * m - 1) = 20 * real m"
    using i128 m(3) by (simp add: comb_db_nth comb_db_def)
  have ratio: "375 * real m / max 375 e6 = real m"
    by (simp add: e6_def)
  have conf: "np_clip (20 * real m / (PROMINENCE_DB * 2)) 0 1 = 1"
    using m(2) by (simp add: np_clip_def PROMINENCE_DB_def)
  have guess: "\<not> (int m < 1 \<or> 3 / 100 < \<bar>real m - real_of_int (int m)\<bar> / real_of_int (int m))"
    using m(2) by simp
  have "make_entry (map (\<lambda>k. real k * (375 / 2)) [1 ..< 129]) (map comb_db [1 ..< 129])
           (map (\<lambda>m. 2 * m - 1) [1 ..< 64]) (map (\<lambda>m. 20 * real m) [1 ..< 64]) 1260 375
           (62 - i)
         = \<lparr>hz = Some (375 * real m), rel_amp_db = 20 * real m - 1260,
            peak_confidence = 1, harmonic_index_guess = Some (int m)\<rparr>"
    unfolding make_entry_def Let_def idx fq db ratio py_round_nat
    using lt guess by (simp only: if_True if_False prom conf)
  moreover have "20 * real m - 1260 = - 20 * real i"
    using m(4) by simp
  ultimately show ?thesis by (simp only: m_def)
qed

lemma peaks_from_comb:
  "peaks_from_spectrum find_comb_peaks (map comb_magnitude [1 ..< 129])
     (map (\<lambda>k. real k * (375 / 2)) [1 ..< 129]) 375 = Inr (comb_entries, take 12 comb_entries)"
proof -
  let ?fv = "map (\<lambda>k. real k * (375 / 2)) [1 ..< 129]"
  let ?db = "map comb_db [1 ..< 129]"
  let ?idx = "map (\<lambda>m. 2 * m - 1) [1 ..< (64::nat)]"
  let ?proms = "map (\<lambda>m. 20 * real m) [1 ..< 64]"
  have ne: "map comb_magnitude [1 ..< 129] \<noteq> []" by simp
  have idx_ne: "?idx \<noteq> []" by (simp add: upt_rec)
  have cp: "choose_peaks (map comb_magnitude [1 ..< 129]) (find_comb_peaks ?db PROMINENCE_DB)
            = (?idx, ?proms)"
    unfolding PROMINENCE_DB_def comb_peaks choose_peaks_def using idx_ne by simp
  have inr: "list_all (\<lambda>i. i < length ?db) ?idx"
    by (auto simp: list_all_iff)
  have order: "take MAX_PEAKS (rev (np_argsort (map (\<lambda>i. ?db ! i) ?idx)))
               = map (\<lambda>i. 62 - i) [0 ..< 60]"
    unfolding comb_peak_values comb_argsort MAX_PEAKS_def by (rule comb_order)
  have entries: "map (make_entry ?fv ?db ?idx ?proms 1260 375) (map (\<lambda>i. 62 - i) [0 ..< 60])
                 = comb_entries"
    unfolding comb_entries_def map_map comp_def
  proof (rule map_cong[OF refl])
    fix i :: nat
    assume "i \<in> set [0 ..< 60]"
    then have "i < 60" by simp
    then show "make_entry ?fv ?db ?idx ?proms 1260 375 (62 - i)
               = \<lparr>hz = Some (375 * real (63 - i)), rel_amp_db = - 20 * real i,
                  peak_confidence = 1, harmonic_index_guess = Some (int (63 - i))\<rparr>"
      by (rule comb_entry)
  qed
  show ?thesis
    unfolding peaks_from_spectrum_def Let_def comb_db_spectrum cp
    using ne inr by (simp only: if_False if_True not_True_eq_False not_not prod.case
        comb_amp_max order entries SUMMARY_PEAKS_def)
qed

lemma analyze_comb:
  "analyze_partials comb_spectrum find_comb_peaks (replicate 256 1) 48000 375
   = Inr (comb_entries, take 12 comb_entries)"
  unfolding analyze_partials_def valid_bins_comb
  by (simp only: sum.case prod.case peaks_from_comb)

text \<open>
  Two runs at 48 kHz. On two samples the Hann window of length 2 is zero, the only bin
  at or above 20 Hz is the one at 24 kHz, \<^verbatim>\<open>find_peaks\<close> returns nothing and both
  lists hold the entry of that bin. On 256 samples with the comb spectrum
  \<^verbatim>\<open>find_peaks\<close> returns 63 peaks in ascending magnitude; the full list holds the 60
  strongest of them in descending order, from the peak at \<open>375 * 63\<close> Hz down to the
  peak at \<open>375 * 4\<close> Hz, and the summary holds the first 12 of these.
\<close>

theorem partial_analyzer_peak_lists_witness:
  "(48000::int) \<noteq> 0
   \<and> length (rfft_abs_pair (windowed_input [1, 1])) = length (windowed_input [1, 1]) div 2 + 1
   \<and> (\<forall>db. list_all (\<lambda>i. i < length db) (fst (find_no_peaks db PROMINENCE_DB)))
   \<and> analyze_partials rfft_abs_pair find_no_peaks [1, 1] 48000 100 =
       Inr ([\<lparr>hz = Some 24000, rel_amp_db = 0, peak_confidence = 1 / 30,
              harmonic_index_guess = Some 240\<rparr>],
            [\<lparr>hz = Some 24000, rel_amp_db = 0, peak_confidence = 1 / 30,
              harmonic_index_guess = Some 240\<rparr>])
   \<and> length (comb_spectrum (windowed_input (replicate 256 1)))
       = length (windowed_input (replicate 256 1)) div 2 + 1
   \<and> (\<forall>db. list_all (\<lambda>i. i < length db) (fst (find_comb_peaks db PROMINENCE_DB)))
   \<and> valid_bins comb_spectrum (replicate 256 1) 48000 =
       Inr (map comb_magnitude [1 ..< 129], map (\<lambda>k. real k * (375 / 2)) [1 ..< 129])
   \<and> map (\<lambda>m. 20 * log 10 (max m e12)) (map comb_magnitude [1 ..< 129])
       = map comb_db [1 ..< 129]
   \<and> fst (find_comb_peaks (map comb_db [1 ..< 129]) PROMINENCE_DB)
       = map (\<lambda>m. 2 * m - 1) [1 ..< 64]
   \<and> length (fst (find_comb_peaks (map comb_db [1 ..< 129]) PROMINENCE_DB)) = 63
   \<and> analyze_partials comb_spectrum find_comb_peaks (replicate 256 1) 48000 375
       = Inr (comb_entries, take 12 comb_entries)
   \<and> length comb_entries = 60
   \<and> length (take 12 comb_entries) = 12
   \<and> sorted_wrt (\<ge>) (map rel_amp_db comb_entries)
   \<and> map rel_amp_db (take 3 comb_entries) = [0, - 20, - 40]
   \<and> map hz (take 3 comb_entries) = [Some 23625, Some 23250, Some 22875]
   \<and> map hz (drop 57 comb_entries) = [Some 2250, Some 1875, Some 1500]"
proof -
  have h1: "(48000::int) \<noteq> 0" by simp
  have p2: "length (rfft_abs_pair (windowed_input [1, 1]))
            = length (windowed_input [1, 1]) div 2 + 1"
    by (simp add: windowed_pair rfft_abs_pair_def)
  have p3: "\<forall>db. list_all (\<lambda>i. i < length db) (fst (find_no_peaks db PROMINENCE_DB))"
    by (simp add: find_no_peaks_def)
  from partial_analyzer_peak_lists[where sr = 48000 and rfft_abs = rfft_abs_pair
      and x = "[1, 1]" and find_peaks = find_no_peaks and f = 100, OF h1 p2 p3]
  have pair: "analyze_partials rfft_abs_pair find_no_peaks [1, 1] 48000 100 =
       Inr ([\<lparr>hz = Some 24000, rel_amp_db = 0, peak_confidence = 1 / 30,
              harmonic_index_guess = Some 240\<rparr>],
            [\<lparr>hz = Some 24000, rel_amp_db = 0, peak_confidence = 1 / 30,
              harmonic_index_guess = Some 240\<rparr>])"
    using analyze_pair by simp
  have c2: "length (comb_spectrum (windowed_input (replicate 256 1)))
            = length (windowed_input (replicate 256 1)) div 2 + 1"
    by (simp add: comb_spectrum_def)
  have c3: "\<forall>db. list_all (\<lambda>i. i < length db) (fst (find_comb_peaks db PROMINENCE_DB))"
    by (simp add: find_comb_peaks_in_range)
  from partial_analyzer_peak_lists[where sr = 48000 and rfft_abs = comb_spectrum
      and x = "replicate 256 1" and find_peaks = find_comb_peaks and f = 375, OF h1 c2 c3]
  have sorted: "sorted_wrt (\<ge>) (map rel_amp_db comb_entries)"
    unfolding analyze_comb by simp
  have len: "length comb_entries = 60" by (simp add: comb_entries_def)
  have len12: "length (take 12 comb_entries) = 12" by (simp add: len)
  have peaks: "fst (find_comb_peaks (map comb_db [1 ..< 129]) PROMINENCE_DB)
               = map (\<lambda>m. 2 * m - 1) [1 ..< 64]"
    unfolding PROMINENCE_DB_def comb_peaks fst_conv ..
  have peaks63: "length (fst (find_comb_peaks (map comb_db [1 ..< 129]) PROMINENCE_DB)) = 63"
    unfolding peaks by simp
  have first: "take 3 comb_entries =
      map (\<lambda>i. \<lparr>hz = Some (375 * real (63 - i)), rel_amp_db = - 20 * real i,
               peak_confidence = 1, harmonic_index_guess = Some (int (63 - i))\<rparr>) [0 ..< 3]"
    by (simp add: comb_entries_def take_map)
  have last: "drop 57 comb_entries =
      map (\<lambda>i. \<lparr>hz = Some (375 * real (63 - i)), rel_amp_db = - 20 * real i,
               peak_confidence = 1, harmonic_index_guess = Some (int (63 - i))\<rparr>) [57 ..< 60]"
    by (simp add: comb_entries_def drop_map)
  have rel3: "map rel_amp_db (take 3 comb_entries) = [0, - 20, - 40]"
    by (simp add: first upt_rec)
  have hz3: "map hz (take 3 comb_entries) = [Some 23625, Some 23250, Some 22875]"
    by (simp add: first upt_rec)
  have hz57: "map hz (drop 57 comb_entries) = [Some 2250, Some 1875, Some 1500]"
    by (simp add: last upt_rec)
  show ?thesis
    apply (intro conjI)
                    apply (rule h1)
                   apply (rule p2)
                  apply (rule p3)
                 apply (rule pair)
                apply (rule c2)
               apply (rule c3)
              apply (rule valid_bins_comb)
             apply (rule comb_db_spectrum)
            apply (rule peaks)
           apply (rule peaks63)
          apply (rule analyze_comb)
         apply (rule len)
        apply (rule len12)
       apply (rule sorted)
      apply (rule rel3)
     apply (rule hz3)
    apply (rule hz57)
    done
qed

lemma np_mask_length:
  "length a = length v \<Longrightarrow> length (np_mask a v) = length (filter (\<lambda>b. b) v)"
  unfolding np_mask_def by (induction a v rule: list_induct2) auto

lemma np_mask_self: "np_mask a (map P a) = filter P a"
  unfolding np_mask_def by (induction a) auto

lemma valid_bins_facts:
  assumes "valid_bins rfft_abs x sr = Inr (mag_valid, freqs_valid)"
  shows "length freqs_valid = length mag_valid" "\<forall>fq \<in> set freqs_valid. 20 \<le> fq"
proof -
  from assms obtain freqs where
    fr: "rfftfreq (length (windowed_input x)) sr = Inr freqs"
    and len: "length (rfft_abs (windowed_input x)) = length freqs"
    and mv: "mag_valid = np_mask (rfft_abs (windowed_input x)) (map (\<lambda>fq. 20 \<le> fq) freqs)"
    and fv: "freqs_valid = np_mask freqs (map (\<lambda>fq. 20 \<le> fq) freqs)"
    by (auto simp: valid_bins_def Let_def split: sum.splits if_splits)
  show "length freqs_valid = length mag_valid"
    unfolding mv fv using len by (simp add: np_mask_length)
  show "\<forall>fq \<in> set freqs_valid. 20 \<le> fq"
    unfolding fv np_mask_self by simp
qed

text \<open>The fallback indices: the last \<open>N\<close> of the ascending sort of the magnitudes.\<close>

lemma fallback_indices:
  assumes "peaks_idx = py_last_n m (np_argsort vs)" "m \<le> length vs"
  shows "length peaks_idx = m" "distinct peaks_idx" "\<forall>i \<in> set peaks_idx. i < length vs"
    "\<forall>i \<in> set peaks_idx. \<forall>j < length vs. j \<notin> set peaks_idx \<longrightarrow> vs ! j \<le> vs ! i"
proof -
  let ?s = "np_argsort vs"
  let ?d = "length ?s - m"
  have pd: "peaks_idx = drop ?d ?s" by (simp add: assms(1) py_last_n_def)
  show "length peaks_idx = m"
    using assms(2) by (simp add: pd np_argsort_length)
  show "distinct peaks_idx"
    by (simp add: pd np_argsort_distinct)
  show "\<forall>i \<in> set peaks_idx. i < length vs"
    using np_argsort_set[of vs] set_drop_subset[of ?d ?s] by (auto simp: pd)
  have split: "?s = take ?d ?s @ drop ?d ?s" by simp
  have "sorted (map (\<lambda>i. vs ! i) (take ?d ?s @ drop ?d ?s))"
    using np_argsort_sorted[of vs] by simp
  then have le: "\<forall>j \<in> set (take ?d ?s). \<forall>i \<in> set (drop ?d ?s). vs ! j \<le> vs ! i"
    unfolding map_append sorted_append by auto
  show "\<forall>i \<in> set peaks_idx. \<forall>j < length vs. j \<notin> set peaks_idx \<longrightarrow> vs ! j \<le> vs ! i"
  proof (intro ballI allI impI)
    fix i j assume i: "i \<in> set peaks_idx" and j: "j < length vs" "j \<notin> set peaks_idx"
    from j(1) have "j \<in> set ?s" by (simp add: np_argsort_set)
    then have "j \<in> set (take ?d ?s) \<union> set (drop ?d ?s)"
      by (metis split set_append)
    with j(2) have "j \<in> set (take ?d ?s)" by (simp add: pd)
    with le i show "vs ! j \<le> vs ! i" by (simp add: pd)
  qed
qed

text \<open>
  Claim C4, as the code has it. When \<^verbatim>\<open>find_peaks\<close> returns no peak for a non-empty
  valid spectrum, the analyzer returns \<open>N = min(60, number of valid bins)\<close> entries.
  They are the bins \<open>idxs\<close> of largest raw magnitude among the valid bins: distinct
  bins at 20 Hz or above (DC is excluded), none of smaller magnitude than a bin left
  out. Each is given the nominal prominence 1.0, so that its \<open>peak_confidence\<close> is
  \<open>clip(1 / 30, 0, 1) = 1 / 30\<close>, not 1.0.
\<close>

theorem partial_analyzer_fallback:
  assumes "valid_bins rfft_abs x sr = Inr (mag_valid, freqs_valid)"
    and "mag_valid \<noteq> []"
    and "fst (find_peaks (map (\<lambda>m. 20 * log 10 (max m e12)) mag_valid) PROMINENCE_DB) = []"
  shows "\<exists>entries summary idxs.
           analyze_partials rfft_abs find_peaks x sr f = Inr (entries, summary)
           \<and> length entries = min 60 (length mag_valid)
           \<and> (\<forall>e \<in> set entries. peak_confidence e = 1 / 30)
           \<and> map hz entries = map (\<lambda>i. Some (freqs_valid ! i)) idxs
           \<and> distinct idxs
           \<and> length idxs = min 60 (length mag_valid)
           \<and> (\<forall>i \<in> set idxs. i < length mag_valid \<and> 20 \<le> freqs_valid ! i)
           \<and> (\<forall>i \<in> set idxs. \<forall>j < length mag_valid.
                 j \<notin> set idxs \<longrightarrow> mag_valid ! j \<le> mag_valid ! i)"
proof -
  define N where "N = min MAX_PEAKS (length mag_valid)"
  define mag_db where "mag_db = map (\<lambda>m. 20 * log 10 (max m e12)) mag_valid"
  define peaks_idx where "peaks_idx = py_last_n N (np_argsort mag_valid)"
  define vals where "vals = map (\<lambda>i. mag_db ! i) peaks_idx"
  define order where "order = take MAX_PEAKS (rev (np_argsort vals))"
  define idxs where "idxs = map (\<lambda>k. peaks_idx ! k) order"
  define entries where
    "entries = map (make_entry freqs_valid mag_db peaks_idx (replicate N 1) (np_max mag_db) f)
                 order"
  have N: "N \<le> length mag_valid" "N \<le> MAX_PEAKS" by (simp_all add: N_def)
  note fb = fallback_indices[OF peaks_idx_def N(1)]
  obtain found_prom where "find_peaks mag_db PROMINENCE_DB = ([], found_prom)"
    using assms(3) unfolding mag_db_def by (metis prod.collapse)
  then have cp: "choose_peaks mag_valid (find_peaks mag_db PROMINENCE_DB)
                 = (peaks_idx, replicate N 1)"
    using fb(1) by (simp add: choose_peaks_def Let_def peaks_idx_def N_def)
  have valid: "list_all (\<lambda>i. i < length mag_db) peaks_idx"
    using fb(3) by (simp add: list_all_iff mag_db_def)
  have ps: "peaks_from_spectrum find_peaks mag_valid freqs_valid f
            = Inr (entries, take SUMMARY_PEAKS entries)"
    using assms(2) cp valid
    by (simp add: peaks_from_spectrum_def Let_def mag_db_def[symmetric] vals_def[symmetric]
        order_def[symmetric] entries_def)
  have len_vals: "length vals = N" by (simp add: vals_def fb(1))
  then have order: "order = rev (np_argsort vals)"
    using N(2) by (simp add: order_def np_argsort_length)
  have set_order: "set order = {0 ..< N}" and dist_order: "distinct order"
    and len_order: "length order = N"
    by (simp_all add: order np_argsort_set np_argsort_distinct np_argsort_length len_vals)
  have "inj_on (\<lambda>k. peaks_idx ! k) (set order)"
    unfolding set_order
    using fb(1,2) by (auto simp: inj_on_def nth_eq_iff_index_eq)
  then have dist_idxs: "distinct idxs"
    using dist_order by (simp add: idxs_def distinct_map)
  have set_idxs: "set idxs = set peaks_idx"
    unfolding idxs_def set_map set_order
    using fb(1) by (auto simp: set_conv_nth)
  have conf: "\<forall>e \<in> set entries. peak_confidence e = 1 / 30"
    using set_order
    by (auto simp: entries_def make_entry_fields PROMINENCE_DB_def np_clip_def)
  have hzs: "map hz entries = map (\<lambda>i. Some (freqs_valid ! i)) idxs"
    by (simp add: entries_def idxs_def make_entry_fields comp_def)
  have inside: "\<forall>i \<in> set idxs. i < length mag_valid \<and> 20 \<le> freqs_valid ! i"
  proof
    fix i assume "i \<in> set idxs"
    then have i: "i < length mag_valid" using fb(3) set_idxs by simp
    then have "freqs_valid ! i \<in> set freqs_valid"
      using valid_bins_facts(1)[OF assms(1)] by simp
    with valid_bins_facts(2)[OF assms(1)] i
    show "i < length mag_valid \<and> 20 \<le> freqs_valid ! i" by simp
  qed
  have top: "\<forall>i \<in> set idxs. \<forall>j < length mag_valid.
               j \<notin> set idxs \<longrightarrow> mag_valid ! j \<le> mag_valid ! i"
    using fb(4) by (simp add: set_idxs)
  have res: "analyze_partials rfft_abs find_peaks x sr f
             = Inr (entries, take SUMMARY_PEAKS entries)"
    by (simp add: analyze_partials_def assms(1) ps)
  have lens: "length entries = min 60 (length mag_valid)" "length idxs = min 60 (length mag_valid)"
    by (simp_all add: entries_def idxs_def len_order N_def MAX_PEAKS_def)
  from res lens conf hzs dist_idxs inside top show ?thesis by blast
qed

theorem partial_analyzer_fallback_witness:
  "valid_bins rfft_abs_pair [3, 1] 48000 = Inr ([0], [24000])
   \<and> fst (find_no_peaks (map (\<lambda>m. 20 * log 10 (max m e12)) [0]) PROMINENCE_DB) = []
   \<and> (\<exists>entries summary.
         analyze_partials rfft_abs_pair find_no_peaks [3, 1] 48000 220 = Inr (entries, summary)
         \<and> length entries = 1
         \<and> map peak_confidence entries = [1 / 30]
         \<and> map hz entries = [Some 24000])"
proof -
  have h1: "valid_bins rfft_abs_pair [3, 1] 48000 = Inr ([0], [24000])"
    by (rule valid_bins_pair)
  have h2: "[0 :: real] \<noteq> []" by simp
  have h3: "fst (find_no_peaks (map (\<lambda>m. 20 * log 10 (max m e12)) [0]) PROMINENCE_DB) = []"
    by (simp add: find_no_peaks_def)
  from partial_analyzer_fallback[where rfft_abs = rfft_abs_pair and x = "[3, 1]"
      and sr = 48000 and mag_valid = "[0]" and freqs_valid = "[24000]"
      and find_peaks = find_no_peaks and f = 220, OF h1 h2 h3]
  obtain entries summary idxs where
    r: "analyze_partials rfft_abs_pair find_no_peaks [3, 1] 48000 220 = Inr (entries, summary)"
       "length entries = min 60 (length [0 :: real])"
       "\<forall>e \<in> set entries. peak_confidence e = 1 / 30"
       "map hz entries = map (\<lambda>i. Some ([24000] ! i)) idxs"
       "length idxs = min 60 (length [0 :: real])"
       "\<forall>i \<in> set idxs. i < length [0 :: real] \<and> (20 :: real) \<le> [24000] ! i"
    by blast
  from r(2) obtain e where e: "entries = [e]"
    by (cases entries) auto
  from r(5) obtain i where i: "idxs = [i]"
    by (cases idxs) auto
  from r(6) i have "i = 0" by simp
  with r(1,3,4) e i h1 h3 show ?thesis by simp
qed

text \<open>
  The claim as stated fails on two samples at 48 kHz: no peak is found, the single
  valid bin is the fallback peak, and its confidence is \<open>1 / 30\<close>.
\<close>

theorem partial_analyzer_fallback_confidence_counterexample:
  "fst (find_no_peaks (map (\<lambda>m. 20 * log 10 (max m e12)) [0]) PROMINENCE_DB) = []
   \<and> analyze_partials rfft_abs_pair find_no_peaks [1, 1] 48000 100 =
       Inr ([\<lparr>hz = Some 24000, rel_amp_db = 0, peak_confidence = 1 / 30,
              harmonic_index_guess = Some 240\<rparr>],
            [\<lparr>hz = Some 24000, rel_amp_db = 0, peak_confidence = 1 / 30,
              harmonic_index_guess = Some 240\<rparr>])
   \<and> (1 / 30 :: real) \<noteq> 1"
  by (simp add: analyze_pair find_no_peaks_def)

section \<open>Verification: register of a bar\<close>

lemma register_of_value:
  assumes "0 < f_ref" "0 < f0"
  shows "\<exists>oct w. register_of f0 f_ref = Inr \<lparr>octave_abs = oct, within_octave_ratio = w\<rparr>
           \<and> oct = \<lfloor>log 2 (f0 / f_ref)\<rfloor>
           \<and> w = f0 / (f_ref * power_int 2 oct)
           \<and> 1 \<le> w \<and> w < 2
           \<and> f0 = f_ref * power_int 2 oct * w"
proof -
  define r where "r = f0 / f_ref"
  define oct where "oct = \<lfloor>log 2 r\<rfloor>"
  define w where "w = f0 / (f_ref * power_int 2 oct)"
  have r: "0 < r" using assms by (simp add: r_def)
  have p: "(0::real) < power_int 2 oct" by simp
  have pw: "power_int (2::real) oct = 2 powr of_int oct"
    by (simp add: powr_real_of_int')
  have "of_int oct \<le> log 2 r" by (simp add: oct_def)
  then have lo: "power_int 2 oct \<le> r"
    unfolding pw using r by (simp add: le_log_iff)
  have "log 2 r < of_int oct + 1" unfolding oct_def by linarith
  then have "r < 2 powr (of_int oct + 1)"
    using r by (simp add: log_less_iff)
  then have hi: "r < 2 * power_int 2 oct"
    unfolding pw by (simp add: powr_add)
  have w_eq: "w = r / power_int 2 oct"
    by (simp add: w_def r_def)
  have w1: "1 \<le> w" unfolding w_eq using lo p by (simp add: le_divide_eq)
  have w2: "w < 2" unfolding w_eq using hi p by (simp add: divide_less_eq)
  have recon: "f0 = f_ref * power_int 2 oct * w"
    unfolding w_def using assms(1) p by simp
  have nz1: "f_ref \<noteq> 0" using assms(1) by simp
  have nz2: "f_ref * power_int 2 oct \<noteq> 0" using assms(1) p by simp
  have "register_of f0 f_ref = Inr \<lparr>octave_abs = oct, within_octave_ratio = w\<rparr>"
    using nz1 nz2 r
    unfolding register_of_def py_div_def py_log2_def Let_def r_def[symmetric]
    by (simp add: oct_def[symmetric] w_def)
  with w1 w2 recon show ?thesis
    unfolding oct_def w_def r_def by blast
qed

definition register_ok :: "real \<Rightarrow> bar \<Rightarrow> bool" where
  "register_ok f_ref b =
     (1 \<le> within_octave_ratio (bar_register b)
      \<and> within_octave_ratio (bar_register b) < 2
      \<and> octave_abs (bar_register b) = \<lfloor>log 2 (bar_f0_hz b / f_ref)\<rfloor>
      \<and> bar_f0_hz b
          = f_ref * power_int 2 (octave_abs (bar_register b))
            * within_octave_ratio (bar_register b))"

lemma assign_registers_ok:
  assumes "0 < f_ref" "\<forall>b \<in> set bs. 0 < bar_f0_hz b"
  shows "\<exists>bs'. assign_registers f_ref idx bs = Inr bs'
           \<and> map bar_id bs' = map bar_id bs
           \<and> map bar_f0_hz bs' = map bar_f0_hz bs
           \<and> map global_order_index bs' = map (\<lambda>i. idx + int i) [0 ..< length bs]
           \<and> (\<forall>b \<in> set bs'. register_ok f_ref b)"
  using assms(2)
proof (induction bs arbitrary: idx)
  case Nil
  then show ?case by simp
next
  case (Cons b bs)
  from Cons.prems have pos: "0 < bar_f0_hz b" and rest: "\<forall>b \<in> set bs. 0 < bar_f0_hz b"
    by simp_all
  from register_of_value[OF assms(1) pos] obtain oct w where
    r: "register_of (bar_f0_hz b) f_ref = Inr \<lparr>octave_abs = oct, within_octave_ratio = w\<rparr>"
       "oct = \<lfloor>log 2 (bar_f0_hz b / f_ref)\<rfloor>" "1 \<le> w" "w < 2"
       "bar_f0_hz b = f_ref * power_int 2 oct * w"
    by blast
  from Cons.IH[OF rest, of "idx + 1"] obtain bs' where
    ih: "assign_registers f_ref (idx + 1) bs = Inr bs'"
        "map bar_id bs' = map bar_id bs"
        "map bar_f0_hz bs' = map bar_f0_hz bs"
        "map global_order_index bs' = map (\<lambda>i. idx + 1 + int i) [0 ..< length bs]"
        "\<forall>b \<in> set bs'. register_ok f_ref b"
    by blast
  have idxs: "map (\<lambda>i. idx + int i) [0 ..< length (b # bs)]
              = idx # map (\<lambda>i. idx + 1 + int i) [0 ..< length bs]"
    by (simp add: upt_conv_Cons map_Suc_upt[symmetric] del: upt_Suc)
  have ok: "register_ok f_ref
              (b\<lparr>bar_register := \<lparr>octave_abs = oct, within_octave_ratio = w\<rparr>,
                 global_order_index := idx\<rparr>)"
    using r(2-5) by (simp add: register_ok_def)
  show ?case
    using r(1) ih ok unfolding idxs by simp
qed

lemma sort_key_head_least:
  assumes "sort_key f xs = y # ys"
  shows "y \<in> set xs \<and> (\<forall>x \<in> set xs. f y \<le> f x)"
proof -
  have "set (y # ys) = set xs" using assms by (metis set_sort)
  moreover have "sorted (map f (y # ys))" using assms by (metis sorted_sort_key)
  ultimately show ?thesis by auto
qed

text \<open>
  Claim C1. For a non-empty corpus of bars with positive fundamentals, tuning
  inference takes as reference the minimum fundamental and gives every bar, in the
  sorted order and with its fundamental unchanged, a register with
  \<open>1 \<le> within_octave_ratio < 2\<close>, \<open>octave_abs = floor(log2(f0 / f_ref))\<close> and
  \<open>f0 = f_ref * 2^octave_abs * within_octave_ratio\<close> (an equation over the exact reals
  of the model).
\<close>

theorem register_invariant:
  assumes "bars \<noteq> []" "\<forall>b \<in> set bars. 0 < bar_f0_hz b"
  shows "\<exists>f_ref bars_sorted.
           tuning_registers bars = Inr (f_ref, bars_sorted)
           \<and> f_ref = Min (bar_f0_hz ` set bars)
           \<and> map bar_id bars_sorted = map bar_id (sort_key bar_sort_key bars)
           \<and> map bar_f0_hz bars_sorted = map bar_f0_hz (sort_key bar_sort_key bars)
           \<and> (\<forall>b \<in> set bars_sorted.
                 1 \<le> within_octave_ratio (bar_register b)
                 \<and> within_octave_ratio (bar_register b) < 2
                 \<and> octave_abs (bar_register b) = \<lfloor>log 2 (bar_f0_hz b / f_ref)\<rfloor>
                 \<and> bar_f0_hz b
                     = f_ref * power_int 2 (octave_abs (bar_register b))
                       * within_octave_ratio (bar_register b))"
proof -
  let ?s = "sort_key bar_sort_key bars"
  have "?s \<noteq> []" using assms(1) by (metis length_sort length_0_conv)
  then obtain f_ref_bar rest where s: "?s = f_ref_bar # rest"
    by (cases ?s) auto
  define f_ref where "f_ref = bar_f0_hz f_ref_bar"
  from sort_key_head_least[OF s] have
    mem: "f_ref_bar \<in> set bars" and
    least: "\<forall>b \<in> set bars. bar_sort_key f_ref_bar \<le> bar_sort_key b"
    by auto
  have "\<forall>b \<in> set bars. f_ref \<le> bar_f0_hz b"
  proof
    fix b assume "b \<in> set bars"
    with least have "bar_sort_key f_ref_bar \<le> bar_sort_key b" by blast
    then show "f_ref \<le> bar_f0_hz b"
      by (auto simp: bar_sort_key_def f_ref_def less_eq_prod_def)
  qed
  then have fmin: "f_ref = Min (bar_f0_hz ` set bars)"
    using mem by (intro Min_eqI[symmetric]) (auto simp: f_ref_def)
  have fpos: "0 < f_ref" using assms(2) mem by (simp add: f_ref_def)
  have "\<forall>b \<in> set ?s. 0 < bar_f0_hz b" using assms(2) by simp
  from assign_registers_ok[OF fpos this, of 1] obtain bs' where
    a: "assign_registers f_ref 1 ?s = Inr bs'"
       "map bar_id bs' = map bar_id ?s"
       "map bar_f0_hz bs' = map bar_f0_hz ?s"
       "\<forall>b \<in> set bs'. register_ok f_ref b"
    by blast
  have a1: "assign_registers (bar_f0_hz f_ref_bar) 1 (f_ref_bar # rest) = Inr bs'"
    using a(1) unfolding s f_ref_def .
  have "tuning_registers bars = Inr (f_ref, bs')"
    by (simp only: tuning_registers_def s Let_def list.case a1 sum.case f_ref_def)
  with fmin a(2-4) show ?thesis
    unfolding register_ok_def by blast
qed

text \<open>A bar record before tuning inference, as \<^verbatim>\<open>build_dataset\<close> creates it.\<close>

definition new_bar :: "string \<Rightarrow> string \<Rightarrow> int \<Rightarrow> real \<Rightarrow> bar" where
  "new_bar bid inst pos f0 =
     \<lparr>bar_id = bid, instrument_id = inst, position_index = pos, bar_f0_hz = f0,
      bar_register = \<lparr>octave_abs = 0, within_octave_ratio = 1\<rparr>, global_order_index = 0\<rparr>"

lemma floor_log2_3: "\<lfloor>log 2 3\<rfloor> = 1"
proof -
  have "(1::real) \<le> log 2 3" by (simp add: le_log_iff)
  moreover have "log 2 3 < (2::real)" by (simp add: log_less_iff)
  ultimately show ?thesis by (simp add: floor_eq_iff)
qed

text \<open>
  A corpus of two bars at 300 and 100 Hz: the reference is 100 Hz, the bar at 300 Hz
  gets octave 1 and ratio 3/2.
\<close>

theorem register_invariant_witness:
  "[new_bar ''edo5-1f'' ''edo5'' 1 300, new_bar ''harmonic-7c'' ''harmonic'' 1 100] \<noteq> []
   \<and> 0 < bar_f0_hz (new_bar ''edo5-1f'' ''edo5'' 1 300)
   \<and> 0 < bar_f0_hz (new_bar ''harmonic-7c'' ''harmonic'' 1 100)
   \<and> tuning_registers
        [new_bar ''edo5-1f'' ''edo5'' 1 300, new_bar ''harmonic-7c'' ''harmonic'' 1 100] =
      Inr (100,
           [(new_bar ''harmonic-7c'' ''harmonic'' 1 100)
              \<lparr>bar_register := \<lparr>octave_abs = 0, within_octave_ratio = 1\<rparr>,
               global_order_index := 1\<rparr>,
            (new_bar ''edo5-1f'' ''edo5'' 1 300)
              \<lparr>bar_register := \<lparr>octave_abs = 1, within_octave_ratio = 3 / 2\<rparr>,
               global_order_index := 2\<rparr>])"
proof -
  let ?bars = "[new_bar ''edo5-1f'' ''edo5'' 1 300, new_bar ''harmonic-7c'' ''harmonic'' 1 100]"
  have h1: "?bars \<noteq> []" by simp
  have h2: "\<forall>b \<in> set ?bars. 0 < bar_f0_hz b" by (simp add: new_bar_def)
  have s: "sort_key bar_sort_key ?bars =
             [new_bar ''harmonic-7c'' ''harmonic'' 1 100, new_bar ''edo5-1f'' ''edo5'' 1 300]"
    by (simp add: bar_sort_key_def new_bar_def less_eq_prod_def)
  have r1: "register_of 100 100 = Inr \<lparr>octave_abs = 0, within_octave_ratio = 1\<rparr>"
    by (simp add: register_of_def py_div_def py_log2_def)
  have r2: "register_of 300 100 = Inr \<lparr>octave_abs = 1, within_octave_ratio = 3 / 2\<rparr>"
    by (simp add: register_of_def py_div_def py_log2_def floor_log2_3)
  have f: "bar_f0_hz (new_bar bid inst pos f0) = f0" for bid inst pos f0
    by (simp add: new_bar_def)
  have res: "tuning_registers ?bars =
      Inr (100,
           [(new_bar ''harmonic-7c'' ''harmonic'' 1 100)
              \<lparr>bar_register := \<lparr>octave_abs = 0, within_octave_ratio = 1\<rparr>,
               global_order_index := 1\<rparr>,
            (new_bar ''edo5-1f'' ''edo5'' 1 300)
              \<lparr>bar_register := \<lparr>octave_abs = 1, within_octave_ratio = 3 / 2\<rparr>,
               global_order_index := 2\<rparr>])"
    unfolding tuning_registers_def s by (simp add: f r1 r2)
  from register_invariant[OF h1 h2] res show ?thesis
    by (simp add: f)
qed

section \<open>Verification: just-intonation candidates\<close>

subsection \<open>The factorisation loops return on positive integers\<close>

lemma strip_factor_total:
  assumes "0 < x" "2 \<le> d"
  shows "\<exists>x' fs'. strip_factor x d fs = Some (x', fs') \<and> 0 < x' \<and> x' \<le> x"
  using assms(1)
proof (induction "nat x" arbitrary: x fs rule: less_induct)
  case less
  show ?case
  proof (cases "x mod d = 0")
    case True
    then have dvd: "d dvd x" by auto
    with less.prems assms(2) have dx: "d \<le> x" by (simp add: zdvd_imp_le)
    have pos: "0 < x div d"
      using dx assms(2) by (simp add: pos_imp_zdiv_pos_iff)
    have lt: "x div d < x"
      using less.prems assms(2) by (simp add: int_div_less_self)
    then have "nat (x div d) < nat x" using pos by linarith
    from less.hyps[OF this pos, of "fs @ [d]"] obtain x' fs' where
      r: "strip_factor (x div d) d (fs @ [d]) = Some (x', fs')" "0 < x'" "x' \<le> x div d"
      by blast
    have "strip_factor x d fs = Some (x', fs')"
      by (subst strip_factor.simps) (simp add: True r(1))
    with r(2,3) lt show ?thesis by auto
  next
    case False
    have "strip_factor x d fs = Some (x, fs)"
      by (subst strip_factor.simps) (simp add: False)
    with less.prems show ?thesis by simp
  qed
qed

lemma factor_loop_total:
  assumes "0 < x" "2 \<le> d"
  shows "\<exists>r. factor_loop x d fs = Some r"
  using assms
proof (induction "nat (x + 1 - d)" arbitrary: x d fs rule: less_induct)
  case less
  show ?case
  proof (cases "d * d \<le> x")
    case True
    from strip_factor_total[OF less.prems, of fs] obtain x' fs' where
      s: "strip_factor x d fs = Some (x', fs')" "0 < x'" "x' \<le> x"
      by blast
    have "d \<le> d * d" using less.prems(2) by (simp add: mult_le_cancel_left1)
    with True have "d \<le> x" by linarith
    then have "nat (x' + 1 - (d + 1)) < nat (x + 1 - d)"
      using s(3) by linarith
    from less.hyps[OF this s(2), of fs'] less.prems(2) obtain r where
      r: "factor_loop x' (d + 1) fs' = Some r"
      by auto
    have "factor_loop x d fs = Some r"
      by (subst factor_loop.simps) (simp add: True s(1) r)
    then show ?thesis by blast
  next
    case False
    have "factor_loop x d fs = Some (if 1 < x then fs @ [x] else fs)"
      by (subst factor_loop.simps) (simp add: False)
    then show ?thesis by blast
  qed
qed

lemma prime_factors_total: "0 < n \<Longrightarrow> \<exists>pf. prime_factors n = Some pf"
  unfolding prime_factors_def by (rule factor_loop_total) simp_all

lemma prime_factors_small:
  "prime_factors 1 = Some []" "prime_factors 2 = Some [2]" "prime_factors 3 = Some [3]"
  unfolding prime_factors_def by (subst factor_loop.simps, simp)+

lemma not_exceeds_small:
  "limit \<in> {5, 7, 11, 13} \<Longrightarrow> \<not> exceeds_limit [] limit"
  "limit \<in> {5, 7, 11, 13} \<Longrightarrow> \<not> exceeds_limit [2] limit"
  "limit \<in> {5, 7, 11, 13} \<Longrightarrow> \<not> exceeds_limit [3] limit"
  by (auto simp: exceeds_limit_def)

subsection \<open>An invariant of the candidate loops\<close>

text \<open>
  The score of a candidate, recomputed from its fields (the \<^verbatim>\<open>_total\<close> entry), the key
  under which it is recorded in \<open>seen\<close>, and the loop invariant: \<open>seen\<close> holds the keys
  of the candidates, no key occurs twice, and every candidate has positive coprime
  \<open>p\<close> and \<open>q\<close>, a prime limit of the source, and the fields the source computes from
  them.
\<close>

definition ji_total :: "ji_candidate \<Rightarrow> real" where
  "ji_total c = \<bar>cents_error c\<bar> + 6 * complexity_score c + 2 * of_int (prime_limit c - 5)"

definition ji_key :: "ji_candidate \<times> real \<Rightarrow> int \<times> int \<times> int" where
  "ji_key ct = (ji_p (fst ct), ji_q (fst ct), prime_limit (fst ct))"

definition ji_entry_ok :: "real \<Rightarrow> ji_candidate \<times> real \<Rightarrow> bool" where
  "ji_entry_ok ratio ct =
     (0 < ji_p (fst ct) \<and> 0 < ji_q (fst ct) \<and> coprime (ji_p (fst ct)) (ji_q (fst ct))
      \<and> prime_limit (fst ct) \<in> {5, 7, 11, 13}
      \<and> cents_error (fst ct)
          = 1200 * log 2 (of_int (ji_p (fst ct)) / of_int (ji_q (fst ct)) / ratio)
      \<and> complexity_score (fst ct) = log 2 (of_int (ji_p (fst ct) * ji_q (fst ct)))
      \<and> snd ct = ji_total (fst ct))"

definition ji_inv :: "real \<Rightarrow> ji_state \<Rightarrow> bool" where
  "ji_inv ratio st =
     (snd st = ji_key ` set (fst st) \<and> distinct (map ji_key (fst st))
      \<and> list_all (ji_entry_ok ratio) (fst st))"

lemma ji_inv_initial: "ji_inv ratio ([], {})"
  by (simp add: ji_inv_def)

lemma ji_visit_step:
  assumes "ji_inv ratio st" "0 < ratio" "0 < p" "0 < q" "limit \<in> {5, 7, 11, 13}"
  shows "\<exists>st'. ji_visit ratio limit p q st = Inr st' \<and> ji_inv ratio st' \<and> snd st \<subseteq> snd st'
              \<and> (\<forall>qf. prime_factors q = Some qf \<longrightarrow> \<not> exceeds_limit qf limit
                     \<longrightarrow> (p div gcd p q, q div gcd p q, limit) \<in> snd st')"
proof -
  obtain candidates seen where st: "st = (candidates, seen)" by (cases st)
  from prime_factors_total[OF assms(4)] obtain qf where qf: "prime_factors q = Some qf"
    by blast
  define g where "g = gcd p q"
  define pp where "pp = p div g"
  define qq where "qq = q div g"
  have g: "0 < g" using assms(3) by (simp add: g_def)
  have "g dvd p" "g dvd q" by (simp_all add: g_def)
  then have pp: "0 < pp" and qq: "0 < qq"
    using assms(3,4) g
    by (simp_all add: pp_def qq_def pos_imp_zdiv_pos_iff zdvd_imp_le)
  have cop: "coprime pp qq"
    unfolding pp_def qq_def g_def using assms(3) by (intro div_gcd_coprime) simp
  show ?thesis
  proof (cases "exceeds_limit qf limit")
    case True
    then have "ji_visit ratio limit p q st = Inr st"
      by (simp add: ji_visit_def st qf)
    with assms(1) True qf show ?thesis by auto
  next
    case False
    show ?thesis
    proof (cases "(pp, qq, limit) \<in> seen")
      case True
      then have "ji_visit ratio limit p q st = Inr st"
        using False g
        by (simp add: ji_visit_def st qf Let_def g_def[symmetric] pp_def[symmetric]
            qq_def[symmetric])
      with assms(1) True st show ?thesis
        by (auto simp: pp_def qq_def g_def)
    next
      case notin: False
      define cents where "cents = 1200 * log 2 (of_int pp / of_int qq / ratio)"
      define complexity where "complexity = log 2 (of_int (pp * qq))"
      define c where
        "c = \<lparr>ji_p = pp, ji_q = qq, cents_error = cents, prime_limit = limit,
              complexity_score = complexity, label = str_int pp @ ''/'' @ str_int qq\<rparr>"
      define ct where "ct = (c, \<bar>cents\<bar> + 6 * complexity + 2 * of_int (limit - 5))"
      have nz: "(of_int qq :: real) \<noteq> 0" "ratio \<noteq> 0"
        using qq assms(2) by simp_all
      have pos1: "\<not> (of_int pp / of_int qq / ratio \<le> (0::real))"
        using pp qq assms(2) by (simp add: not_le)
      have pos2: "\<not> (of_int pp * of_int qq \<le> (0::real))"
        using pp qq by (simp add: not_le)
      have res: "ji_visit ratio limit p q st = Inr (candidates @ [ct], insert (pp, qq, limit) seen)"
        using False notin g nz pos1 pos2
        by (simp add: ji_visit_def st qf Let_def g_def[symmetric] pp_def[symmetric]
            qq_def[symmetric] py_div_def py_log2_def ct_def c_def cents_def complexity_def)
      have key: "ji_key ct = (pp, qq, limit)"
        by (simp add: ji_key_def ct_def c_def)
      have ok: "ji_entry_ok ratio ct"
        using pp qq cop assms(5)
        by (simp add: ji_entry_ok_def ct_def c_def ji_total_def cents_def complexity_def)
      from assms(1) have inv:
        "seen = ji_key ` set candidates" "distinct (map ji_key candidates)"
        "list_all (ji_entry_ok ratio) candidates"
        by (simp_all add: ji_inv_def st)
      have "ji_inv ratio (candidates @ [ct], insert (pp, qq, limit) seen)"
        using inv notin key ok by (auto simp: ji_inv_def)
      with res st show ?thesis
        by (auto simp: pp_def qq_def g_def)
    qed
  qed
qed

subsection \<open>Loops that keep an invariant\<close>

lemma fold_err_invariant:
  assumes step: "\<And>a st. A a \<Longrightarrow> I st \<Longrightarrow> \<exists>st'. f a st = Inr st' \<and> I st' \<and> snd st \<subseteq> snd st'"
  shows "\<forall>a \<in> set as. A a \<Longrightarrow> I st
         \<Longrightarrow> \<exists>st'. fold_err f as st = Inr st' \<and> I st' \<and> snd st \<subseteq> snd st'"
proof (induction as arbitrary: st)
  case Nil
  then show ?case by simp
next
  case (Cons a as)
  from step[of a st] Cons.prems obtain st1 where
    s1: "f a st = Inr st1" "I st1" "snd st \<subseteq> snd st1"
    by auto
  from Cons.IH[OF _ s1(2)] Cons.prems(1) obtain st' where
    "fold_err f as st1 = Inr st'" "I st'" "snd st1 \<subseteq> snd st'"
    by auto
  with s1 show ?case by auto
qed

lemma fold_err_reaches:
  assumes step: "\<And>a st. A a \<Longrightarrow> I st \<Longrightarrow> \<exists>st'. f a st = Inr st' \<and> I st' \<and> snd st \<subseteq> snd st'"
    and hit: "\<And>st st'. I st \<Longrightarrow> f a0 st = Inr st' \<Longrightarrow> k \<in> snd st'"
  shows "\<forall>a \<in> set as. A a \<Longrightarrow> a0 \<in> set as \<Longrightarrow> I st
         \<Longrightarrow> \<exists>st'. fold_err f as st = Inr st' \<and> I st' \<and> snd st \<subseteq> snd st' \<and> k \<in> snd st'"
proof (induction as arbitrary: st)
  case Nil
  then show ?case by simp
next
  case (Cons a as)
  from step[of a st] Cons.prems obtain st1 where
    s1: "f a st = Inr st1" "I st1" "snd st \<subseteq> snd st1"
    by auto
  have all: "\<forall>b \<in> set as. A b" using Cons.prems(1) by simp
  show ?case
  proof (cases "a0 \<in> set as")
    case True
    from Cons.IH[OF all True s1(2)] obtain st' where
      "fold_err f as st1 = Inr st'" "I st'" "snd st1 \<subseteq> snd st'" "k \<in> snd st'"
      by auto
    with s1 show ?thesis by auto
  next
    case False
    with Cons.prems(2) have "a = a0" by simp
    with hit[OF Cons.prems(3)] s1(1) have k: "k \<in> snd st1" by simp
    from fold_err_invariant[of A I f as st1, OF step all s1(2)] obtain st' where
      "fold_err f as st1 = Inr st'" "I st'" "snd st1 \<subseteq> snd st'"
      by auto
    with s1 k show ?thesis by auto
  qed
qed

lemma ji_row_step:
  assumes "0 < ratio" "limit \<in> {5, 7, 11, 13}" "0 < p" "ji_inv ratio st"
  shows "\<exists>st'. ji_row ratio limit p st = Inr st' \<and> ji_inv ratio st' \<and> snd st \<subseteq> snd st'"
proof -
  from prime_factors_total[OF assms(3)] obtain pf where pf: "prime_factors p = Some pf"
    by blast
  show ?thesis
  proof (cases "exceeds_limit pf limit")
    case True
    with assms(4) show ?thesis by (simp add: ji_row_def pf)
  next
    case False
    have "\<exists>st'. fold_err (ji_visit ratio limit p) [1 .. 256] st = Inr st'
               \<and> ji_inv ratio st' \<and> snd st \<subseteq> snd st'"
    proof (rule fold_err_invariant[where A = "\<lambda>q :: int. 0 < q"])
      fix q :: int and s :: ji_state assume "0 < q" "ji_inv ratio s"
      from ji_visit_step[OF this(2) assms(1,3) this(1) assms(2)]
      show "\<exists>s'. ji_visit ratio limit p q s = Inr s' \<and> ji_inv ratio s' \<and> snd s \<subseteq> snd s'"
        by blast
    qed (use assms(4) in auto)
    with False show ?thesis by (simp add: ji_row_def pf)
  qed
qed

lemma ji_row_reaches:
  assumes "0 < ratio" "limit \<in> {5, 7, 11, 13}" "0 < p" "q \<in> {1 .. 256}"
    and "prime_factors p = Some pf" "\<not> exceeds_limit pf limit"
    and "prime_factors q = Some qf" "\<not> exceeds_limit qf limit"
    and "ji_inv ratio st" "ji_row ratio limit p st = Inr st'"
  shows "(p div gcd p q, q div gcd p q, limit) \<in> snd st'"
proof -
  have "\<exists>s'. fold_err (ji_visit ratio limit p) [1 .. 256] st = Inr s'
             \<and> ji_inv ratio s' \<and> snd st \<subseteq> snd s'
             \<and> (p div gcd p q, q div gcd p q, limit) \<in> snd s'"
  proof (rule fold_err_reaches[where A = "\<lambda>q :: int. 0 < q" and ?a0.0 = q])
    fix b :: int and s :: ji_state assume "0 < b" "ji_inv ratio s"
    from ji_visit_step[OF this(2) assms(1,3) this(1) assms(2)]
    show "\<exists>s'. ji_visit ratio limit p b s = Inr s' \<and> ji_inv ratio s' \<and> snd s \<subseteq> snd s'"
      by blast
  next
    fix s s' :: ji_state assume s: "ji_inv ratio s" "ji_visit ratio limit p q s = Inr s'"
    have "0 < q" using assms(4) by simp
    from ji_visit_step[OF s(1) assms(1,3) this assms(2)] s(2) assms(7,8)
    show "(p div gcd p q, q div gcd p q, limit) \<in> snd s'" by auto
  qed (use assms(4,9) in auto)
  with assms(5,6,10) show ?thesis by (simp add: ji_row_def)
qed

lemma ji_limit_step:
  assumes "0 < ratio" "limit \<in> {5, 7, 11, 13}" "ji_inv ratio st"
  shows "\<exists>st'. ji_limit ratio limit st = Inr st' \<and> ji_inv ratio st' \<and> snd st \<subseteq> snd st'"
  unfolding ji_limit_def
proof (rule fold_err_invariant[where A = "\<lambda>p :: int. 0 < p"])
  fix p :: int and s :: ji_state assume "0 < p" "ji_inv ratio s"
  from ji_row_step[OF assms(1,2) this]
  show "\<exists>s'. ji_row ratio limit p s = Inr s' \<and> ji_inv ratio s' \<and> snd s \<subseteq> snd s'" .
qed (use assms(3) in auto)

lemma ji_limit_reaches:
  assumes "0 < ratio" "limit \<in> {5, 7, 11, 13}" "p \<in> {1 .. 256}" "q \<in> {1 .. 256}"
    and "prime_factors p = Some pf" "\<not> exceeds_limit pf limit"
    and "prime_factors q = Some qf" "\<not> exceeds_limit qf limit"
    and "ji_inv ratio st" "ji_limit ratio limit st = Inr st'"
  shows "(p div gcd p q, q div gcd p q, limit) \<in> snd st'"
proof -
  have p: "0 < p" using assms(3) by simp
  have "\<exists>s'. fold_err (ji_row ratio limit) [1 .. 256] st = Inr s'
             \<and> ji_inv ratio s' \<and> snd st \<subseteq> snd s'
             \<and> (p div gcd p q, q div gcd p q, limit) \<in> snd s'"
  proof (rule fold_err_reaches[where A = "\<lambda>p :: int. 0 < p" and ?a0.0 = p])
    fix b :: int and s :: ji_state assume "0 < b" "ji_inv ratio s"
    from ji_row_step[OF assms(1,2) this]
    show "\<exists>s'. ji_row ratio limit b s = Inr s' \<and> ji_inv ratio s' \<and> snd s \<subseteq> snd s'" .
  next
    fix s s' :: ji_state assume "ji_inv ratio s" "ji_row ratio limit p s = Inr s'"
    from ji_row_reaches[OF assms(1,2) p assms(4-8) this]
    show "(p div gcd p q, q div gcd p q, limit) \<in> snd s'" .
  qed (use assms(3,9) in auto)
  with assms(10) show ?thesis by (simp add: ji_limit_def)
qed

text \<open>
  The three loops return for a positive ratio, keep the invariant, and record every
  smooth pair they visit.
\<close>

lemma ji_all_candidates_ok:
  assumes "0 < ratio"
  shows "\<exists>st'. ji_all_candidates ratio = Inr st' \<and> ji_inv ratio st'"
proof -
  have "\<exists>st'. fold_err (ji_limit ratio) [5, 7, 11, 13] (([], {}) :: ji_state) = Inr st'
             \<and> ji_inv ratio st' \<and> snd (([], {}) :: ji_state) \<subseteq> snd st'"
  proof (rule fold_err_invariant[where A = "\<lambda>l :: int. l \<in> {5, 7, 11, 13}"])
    fix l :: int and s :: ji_state assume "l \<in> {5, 7, 11, 13}" "ji_inv ratio s"
    from ji_limit_step[OF assms this]
    show "\<exists>s'. ji_limit ratio l s = Inr s' \<and> ji_inv ratio s' \<and> snd s \<subseteq> snd s'" .
  qed (simp_all add: ji_inv_initial)
  then show ?thesis by (auto simp: ji_all_candidates_def)
qed

lemma ji_all_candidates_reaches:
  assumes "0 < ratio" "limit \<in> {5, 7, 11, 13}" "p \<in> {1 .. 256}" "q \<in> {1 .. 256}"
    and "prime_factors p = Some pf" "\<not> exceeds_limit pf limit"
    and "prime_factors q = Some qf" "\<not> exceeds_limit qf limit"
    and "ji_all_candidates ratio = Inr st'"
  shows "(p div gcd p q, q div gcd p q, limit) \<in> snd st'"
proof -
  have "\<exists>s'. fold_err (ji_limit ratio) [5, 7, 11, 13] (([], {}) :: ji_state) = Inr s'
             \<and> ji_inv ratio s' \<and> snd (([], {}) :: ji_state) \<subseteq> snd s'
             \<and> (p div gcd p q, q div gcd p q, limit) \<in> snd s'"
  proof (rule fold_err_reaches[where A = "\<lambda>l :: int. l \<in> {5, 7, 11, 13}" and ?a0.0 = limit])
    fix l :: int and s :: ji_state assume "l \<in> {5, 7, 11, 13}" "ji_inv ratio s"
    from ji_limit_step[OF assms(1) this]
    show "\<exists>s'. ji_limit ratio l s = Inr s' \<and> ji_inv ratio s' \<and> snd s \<subseteq> snd s'" .
  next
    fix s s' :: ji_state assume "ji_inv ratio s" "ji_limit ratio limit s = Inr s'"
    from ji_limit_reaches[OF assms(1-8) this]
    show "(p div gcd p q, q div gcd p q, limit) \<in> snd s'" .
  qed (use assms(2) in \<open>simp_all add: ji_inv_initial\<close>)
  with assms(9) show ?thesis by (simp add: ji_all_candidates_def)
qed

subsection \<open>The candidate 3/2 scores strictly best for the ratio 3/2\<close>

lemma log2_19_18: "1 / 16 < log 2 (19 / 18)"
proof -
  have "(2::real) < (19 / 18) ^ 16" by (simp add: power_divide)
  then have "log 2 2 < log 2 ((19 / 18) ^ 16)"
    by (subst log_less_cancel_iff) simp_all
  moreover have "log 2 ((19 / 18) ^ 16) = 16 * log 2 (19 / 18)"
    by (subst log_nat_power) simp_all
  ultimately show ?thesis by simp
qed

lemma log2_6_less_3: "log 2 6 < 3"
  by (simp add: log_less_iff)

lemma log2_ratio_far:
  fixes a b :: int
  assumes "0 < a" "0 < b" "a \<noteq> b" "a \<le> 18" "b \<le> 18"
  shows "log 2 (19 / 18) \<le> \<bar>log 2 (of_int a / of_int b)\<bar>"
proof (cases "b < a")
  case True
  then have "b + 1 \<le> a" by simp
  then have "of_int b + 1 \<le> (of_int a :: real)" by linarith
  moreover have "(19 / 18 :: real) * of_int b \<le> of_int b + 1"
    using assms(5) by simp
  ultimately have "(19 / 18 :: real) \<le> of_int a / of_int b"
    using assms(2) by (simp add: le_divide_eq)
  then have "log 2 (19 / 18) \<le> log 2 (of_int a / of_int b)"
    by (subst log_le_cancel_iff) (use assms in simp_all)
  then show ?thesis by simp
next
  case False
  with assms(3) have "a + 1 \<le> b" by simp
  then have "of_int a + 1 \<le> (of_int b :: real)" by linarith
  moreover have "(19 / 18 :: real) * of_int a \<le> of_int a + 1"
    using assms(4) by simp
  ultimately have "(19 / 18 :: real) \<le> of_int b / of_int a"
    using assms(1) by (simp add: le_divide_eq)
  then have "log 2 (19 / 18) \<le> log 2 (of_int b / of_int a)"
    by (subst log_le_cancel_iff) (use assms in simp_all)
  moreover have "log 2 (of_int a / of_int b) = - log 2 (of_int b / of_int a)"
    using assms(1,2) by (simp add: log_divide)
  ultimately show ?thesis by simp
qed

lemma three_halves_only:
  fixes p q :: int
  assumes "0 < p" "0 < q" "coprime p q" "2 * p = 3 * q"
  shows "p = 3 \<and> q = 2"
proof -
  have "p dvd 3 * q" using assms(4) by (metis dvd_triv_right)
  then have "p dvd 3" using assms(3) by (simp add: coprime_dvd_mult_left_iff)
  then have "p \<le> 3" by (simp add: zdvd_imp_le)
  with assms(1,4) show ?thesis by presburger
qed

lemma three_halves_is_best:
  fixes p q limit :: int
  assumes "0 < p" "0 < q" "coprime p q" "limit \<in> {5, 7, 11, 13}" "(p, q, limit) \<noteq> (3, 2, 5)"
  shows "6 * log 2 6
         < \<bar>1200 * log 2 (of_int p / of_int q / (3 / 2))\<bar> + 6 * log 2 (of_int (p * q))
           + 2 * of_int (limit - 5)"
proof (cases "p = 3 \<and> q = 2")
  case True
  with assms(4,5) have "7 \<le> limit" by auto
  then have "(0::real) < 2 * of_int (limit - 5)" by simp
  with True show ?thesis by simp
next
  case False
  with three_halves_only[OF assms(1-3)] have ne: "2 * p \<noteq> 3 * q" by blast
  have l: "(0::real) \<le> 2 * of_int (limit - 5)" using assms(4) by auto
  have pq: "1 \<le> p * q" using assms(1,2) by (simp add: pos_zmult_eq_1_iff_lemma mult_pos_pos int_one_le_iff_zero_less)
  show ?thesis
  proof (cases "7 \<le> p * q")
    case True
    then have "(7::real) \<le> of_int (p * q)" by linarith
    then have "log 2 7 \<le> log 2 (of_int (p * q))"
      by (subst log_le_cancel_iff) simp_all
    moreover have "log 2 6 < log 2 (7::real)"
      by (subst log_less_cancel_iff) simp_all
    ultimately show ?thesis using l by linarith
  next
    case small: False
    have "p \<le> p * q" using assms(1,2) by (simp add: mult_le_cancel_left1)
    moreover have "q \<le> p * q" using assms(1,2) by (simp add: mult_le_cancel_right1)
    ultimately have "p \<le> 6" "q \<le> 6" using small by linarith+
    then have b: "2 * p \<le> 18" "3 * q \<le> 18" by simp_all
    have eq: "of_int p / of_int q / (3 / 2 :: real) = of_int (2 * p) / of_int (3 * q)"
      by simp
    have far: "log 2 (19 / 18) \<le> \<bar>log 2 (of_int (2 * p) / of_int (3 * q))\<bar>"
      by (rule log2_ratio_far) (use assms(1,2) ne b in simp_all)
    have "1 / 16 < \<bar>log 2 (of_int p / of_int q / (3 / 2))\<bar>"
      unfolding eq using log2_19_18 far by linarith
    then have "75 < \<bar>1200 * log 2 (of_int p / of_int q / (3 / 2))\<bar>"
      by (simp add: abs_mult)
    moreover have "0 \<le> log 2 (of_int (p * q))"
    proof -
      have "(1::real) \<le> of_int (p * q)" using pq by linarith
      then show ?thesis by (subst zero_le_log_cancel_iff) linarith+
    qed
    ultimately show ?thesis using l log2_6_less_3 by linarith
  qed
qed

subsection \<open>The returned candidates\<close>

lemma ji_inv_length:
  assumes "ji_inv ratio (candidates, seen)" "finite K" "K \<subseteq> seen"
  shows "card K \<le> length candidates"
proof -
  from assms(1) have seen: "seen = set (map ji_key candidates)"
    and dist: "distinct (map ji_key candidates)"
    by (simp_all add: ji_inv_def)
  have "card K \<le> card seen"
    using assms(3) by (intro card_mono) (simp_all add: seen)
  also have "card seen = length candidates"
    using distinct_card[OF dist] by (simp add: seen)
  finally show ?thesis .
qed

lemma ji_sort_key_total:
  "ji_entry_ok ratio ct \<Longrightarrow>
   ji_sort_key ct =
     (ji_total (fst ct), \<bar>cents_error (fst ct)\<bar>, complexity_score (fst ct),
      ji_p (fst ct), ji_q (fst ct))"
  by (cases ct) (simp add: ji_sort_key_def ji_entry_ok_def)

text \<open>
  Claim C2. For the ratio 3/2 the generation returns exactly 10 candidates, each with
  positive coprime \<open>p\<close> and \<open>q\<close>, in ascending order of (composite score,
  \<open>|cents_error|\<close>, complexity, \<open>p\<close>, \<open>q\<close>), where the composite score is
  \<open>ji_total\<close>; the first candidate is \<open>p = 3\<close>, \<open>q = 2\<close> with \<open>cents_error = 0\<close>.
\<close>

theorem ji_candidates_three_halves:
  "\<exists>cs. generate_ji_candidates (3 / 2) = Inr cs
        \<and> length cs = 10
        \<and> (\<forall>c \<in> set cs. 0 < ji_p c \<and> 0 < ji_q c \<and> coprime (ji_p c) (ji_q c))
        \<and> sorted (map (\<lambda>c. (ji_total c, \<bar>cents_error c\<bar>, complexity_score c, ji_p c, ji_q c))
                    cs)
        \<and> ji_p (hd cs) = 3 \<and> ji_q (hd cs) = 2 \<and> cents_error (hd cs) = 0"
proof -
  have ratio: "(0::real) < 3 / 2" by simp
  from ji_all_candidates_ok[OF ratio] obtain st where
    all: "ji_all_candidates (3 / 2) = Inr st" and inv: "ji_inv (3 / 2) st"
    by blast
  obtain candidates seen where st: "st = (candidates, seen)" by (cases st)
  from inv have seen: "seen = ji_key ` set candidates"
    and ok: "\<forall>ct \<in> set candidates. ji_entry_ok (3 / 2) ct"
    by (simp_all add: ji_inv_def st list_all_iff)
  have reach: "(p div gcd p q, q div gcd p q, limit) \<in> seen"
    if "limit \<in> {5, 7, 11, 13}" "p \<in> {1 .. 256}" "q \<in> {1 .. 256}"
      "prime_factors p = Some pf" "\<not> exceeds_limit pf limit"
      "prime_factors q = Some qf" "\<not> exceeds_limit qf limit"
    for p q limit pf qf
    using ji_all_candidates_reaches[OF ratio that all] by (simp add: st)
  have k1: "(1, 1, limit) \<in> seen" if "limit \<in> {5, 7, 11, 13}" for limit
    using reach[OF that _ _ prime_factors_small(1) not_exceeds_small(1)[OF that]
        prime_factors_small(1) not_exceeds_small(1)[OF that]]
    by simp
  have k2: "(1, 2, limit) \<in> seen" if "limit \<in> {5, 7, 11, 13}" for limit
    using reach[OF that _ _ prime_factors_small(1) not_exceeds_small(1)[OF that]
        prime_factors_small(2) not_exceeds_small(2)[OF that]]
    by simp
  have k3: "(1, 3, limit) \<in> seen" if "limit \<in> {5, 7, 11, 13}" for limit
    using reach[OF that _ _ prime_factors_small(1) not_exceeds_small(1)[OF that]
        prime_factors_small(3) not_exceeds_small(3)[OF that]]
    by simp
  have five: "(5::int) \<in> {5, 7, 11, 13}" by simp
  have k32: "(3, 2, 5) \<in> seen"
    using reach[OF five _ _ prime_factors_small(3) not_exceeds_small(3)[OF five]
        prime_factors_small(2) not_exceeds_small(2)[OF five]]
    by simp
  define K :: "(int \<times> int \<times> int) set" where
    "K = {(1, 1, 5), (1, 1, 7), (1, 1, 11), (1, 1, 13), (1, 2, 5), (1, 2, 7), (1, 2, 11),
          (1, 2, 13), (1, 3, 5), (1, 3, 7)}"
  have "K \<subseteq> seen"
    unfolding K_def using k1 k2 k3 by simp
  moreover have "finite K" "card K = 10" by (simp_all add: K_def)
  ultimately have len: "10 \<le> length candidates"
    using ji_inv_length[OF inv[unfolded st]] by metis
  define sorted_all where "sorted_all = sort_key ji_sort_key candidates"
  define top where "top = take 10 sorted_all"
  have res: "generate_ji_candidates (3 / 2) = Inr (map fst top)"
    by (simp add: generate_ji_candidates_def all st top_def sorted_all_def)
  have len_top: "length (map fst top) = 10"
    using len by (simp add: top_def sorted_all_def)
  have sub: "set top \<subseteq> set candidates"
    unfolding top_def sorted_all_def using set_take_subset[of 10] by fastforce
  have each: "\<forall>c \<in> set (map fst top). 0 < ji_p c \<and> 0 < ji_q c \<and> coprime (ji_p c) (ji_q c)"
    using sub ok by (auto simp: ji_entry_ok_def)
  have "sorted (map ji_sort_key top)"
    unfolding top_def sorted_all_def
    by (simp add: take_map[symmetric] sorted_wrt_take)
  moreover have "map ji_sort_key top =
      map (\<lambda>c. (ji_total c, \<bar>cents_error c\<bar>, complexity_score c, ji_p c, ji_q c)) (map fst top)"
  proof -
    have "map ji_sort_key top =
        map (\<lambda>ct. (ji_total (fst ct), \<bar>cents_error (fst ct)\<bar>, complexity_score (fst ct),
                    ji_p (fst ct), ji_q (fst ct))) top"
      by (rule map_cong[OF refl], rule ji_sort_key_total[of "3 / 2"]) (use sub ok in blast)
    then show ?thesis by (simp add: comp_def)
  qed
  ultimately have srt: "sorted (map (\<lambda>c. (ji_total c, \<bar>cents_error c\<bar>, complexity_score c,
                                          ji_p c, ji_q c)) (map fst top))"
    by simp
  have "length sorted_all = length candidates"
    by (simp add: sorted_all_def)
  with len obtain y ys where ys: "sorted_all = y # ys"
    by (cases sorted_all) auto
  from sort_key_head_least[OF ys[unfolded sorted_all_def]] have
    y: "y \<in> set candidates" and least: "\<forall>ct \<in> set candidates. ji_sort_key y \<le> ji_sort_key ct"
    by auto
  have hd: "hd (map fst top) = fst y"
    by (simp add: top_def ys)
  from k32 seen obtain c0 where c0: "c0 \<in> set candidates" "ji_key c0 = (3, 2, 5)"
    by auto
  from ok c0 have ok0: "ji_entry_ok (3 / 2) c0" by blast
  have tot0: "ji_total (fst c0) = 6 * log 2 6"
    using ok0 c0(2) by (simp add: ji_entry_ok_def ji_key_def ji_total_def)
  from ok y have oky: "ji_entry_ok (3 / 2) y" by blast
  have "ji_sort_key y \<le> ji_sort_key c0" using least c0(1) by blast
  then have le: "ji_total (fst y) \<le> 6 * log 2 6"
    unfolding ji_sort_key_total[OF oky] ji_sort_key_total[OF ok0] tot0
    by (auto simp: less_eq_prod_def)
  have "ji_key y = (3, 2, 5)"
  proof (rule ccontr)
    assume "ji_key y \<noteq> (3, 2, 5)"
    then have "(ji_p (fst y), ji_q (fst y), prime_limit (fst y)) \<noteq> (3, 2, 5)"
      by (simp add: ji_key_def)
    from three_halves_is_best[OF _ _ _ _ this] oky
    have "6 * log 2 6 < ji_total (fst y)"
      by (simp add: ji_entry_ok_def ji_total_def)
    with le show False by simp
  qed
  then have "ji_p (fst y) = 3" "ji_q (fst y) = 2" "cents_error (fst y) = 0"
    using oky by (simp_all add: ji_key_def ji_entry_ok_def)
  with res len_top each srt hd show ?thesis by auto
qed

theorem ji_candidates_three_halves_witness:
  "\<exists>cs. generate_ji_candidates (3 / 2) = Inr cs \<and> length cs = 10
        \<and> ji_p (hd cs) = 3 \<and> ji_q (hd cs) = 2 \<and> \<bar>cents_error (hd cs)\<bar> < 5"
  using ji_candidates_three_halves by auto

end
